theory Spec2Isabelle
  imports Complex_Main "HOL-Library.Multiset" "HOL-Library.List_Lexorder"
begin

section \<open>C numbers\<close>

text \<open>
  The program's \<^verbatim>\<open>int\<close> is a 32-bit signed integer. Values are kept as mathematical
  integers; an arithmetic result is passed through \<open>c_int\<close> at the places where it can
  leave the 32-bit range in a run of the program (the new roll number, the comparators),
  and \<open>None\<close> there stands for signed overflow, which C leaves undefined.
\<close>

definition INT_MAX :: int where
  "INT_MAX = 2147483647"

definition INT_MIN :: int where
  "INT_MIN = - 2147483648"

definition c_int :: "int \<Rightarrow> int option" where
  "c_int v = (if INT_MIN \<le> v \<and> v \<le> INT_MAX then Some v else None)"

definition MAX_STUDENTS :: int where
  "MAX_STUDENTS = 1000"

definition MAX_NAME :: nat where
  "MAX_NAME = 100"

definition MAX_SUBJECTS :: int where
  "MAX_SUBJECTS = 10"

subsection \<open>Single precision\<close>

text \<open>
  A \<^verbatim>\<open>float\<close> is an IEEE 754 binary32 number; the model keeps its exact value, a
  rational. \<open>fl32 x\<close> is the binary32 number nearest to \<open>x\<close>, ties going to the even
  significand: the quantum is \<open>2 ^ (e - 23)\<close> for the binary exponent \<open>e\<close> of \<open>x\<close>, and
  \<open>2 ^ (- 149)\<close> in the subnormal range. Every arithmetic operation on floats is the exact
  operation followed by \<open>fl32\<close>. (An intermediate result held in double or extended
  precision and rounded again on the store gives the same value for a single division or
  addition of floats.) The exponent has no upper limit here: a magnitude of \<open>2 ^ 128\<close> or
  more, where C gives an infinity, is out of reach of averages of marks.
\<close>

text \<open>The number of binary digits of a positive integer.\<close>

function bitlen :: "int \<Rightarrow> int" where
  "bitlen n = (if n \<le> 0 then 0 else 1 + bitlen (n div 2))"
  by pat_completeness auto
termination
  by (relation "measure nat") auto

declare bitlen.simps [simp del]

definition pow2 :: "int \<Rightarrow> rat" where
  "pow2 e = (if 0 \<le> e then 2 ^ nat e else 1 / 2 ^ nat (- e))"

text \<open>The binary exponent \<open>e\<close> of a positive \<open>x\<close>: \<open>2 ^ e \<le> x < 2 ^ (e + 1)\<close>.\<close>

definition ilog2 :: "rat \<Rightarrow> int" where
  "ilog2 x = (if 1 \<le> x then bitlen \<lfloor>x\<rfloor> - 1 else - bitlen (\<lceil>1 / x\<rceil> - 1))"

definition round_half_even :: "rat \<Rightarrow> int" where
  "round_half_even y =
     (let f = \<lfloor>y\<rfloor>; d = y - of_int f
      in if d < 1 / 2 then f else if 1 / 2 < d then f + 1
         else if even f then f else f + 1)"

definition fl32 :: "rat \<Rightarrow> rat" where
  "fl32 x =
     (if x = 0 then 0
      else let e = max (- 126) (ilog2 \<bar>x\<bar>); q = pow2 (e - 23)
           in of_int (round_half_even (x / q)) * q)"

definition fadd :: "rat \<Rightarrow> rat \<Rightarrow> rat" where
  "fadd a b = fl32 (a + b)"

text \<open>Division of floats; the divisor is never zero where the program divides.\<close>

definition fdiv :: "rat \<Rightarrow> rat \<Rightarrow> rat" where
  "fdiv a b = fl32 (a / b)"

definition float_of_int :: "int \<Rightarrow> rat" where
  "float_of_int i = fl32 (of_int i)"

section \<open>The Student record\<close>

text \<open>
  \<^verbatim>\<open>typedef struct { int roll; char name[MAX_NAME]; int subjectCount;
                   int marks[MAX_SUBJECTS]; float average; char grade; } Student;\<close>
  The array \<open>marks\<close> is a list of \<open>MAX_SUBJECTS\<close> integers of which the first
  \<open>subjectCount\<close> are the scores; \<open>name\<close> is the string up to the terminator.
\<close>

record student =
  roll :: int
  name :: string
  subjectCount :: int
  marks :: "int list"
  average :: rat
  grade :: char

definition calculateGrade :: "rat \<Rightarrow> char" where
  "calculateGrade avg =
     (if 90 \<le> avg then CHR ''A''
      else if 75 \<le> avg then CHR ''B''
      else if 60 \<le> avg then CHR ''C''
      else if 50 \<le> avg then CHR ''D''
      else CHR ''F'')"

text \<open>The loop \<^verbatim>\<open>for (i = 0; i < s->subjectCount; ++i) sum += s->marks[i];\<close>\<close>

function recompute_loop :: "student \<Rightarrow> int \<Rightarrow> int \<Rightarrow> int" where
  "recompute_loop s i acc =
     (if i < subjectCount s then recompute_loop s (i + 1) (acc + marks s ! nat i) else acc)"
  by pat_completeness auto
termination
  by (relation "measure (\<lambda>(s, i, acc). nat (subjectCount s - i))") auto

declare recompute_loop.simps [simp del]

definition recompute :: "student \<Rightarrow> student" where
  "recompute s =
     (let total = recompute_loop s 0 0;
          avg = fdiv (float_of_int total) (float_of_int (subjectCount s))
      in s\<lparr>average := avg, grade := calculateGrade avg\<rparr>)"

subsection \<open>What the specification calls scores, mean and grade table\<close>

definition scores :: "student \<Rightarrow> int list" where
  "scores s = take (nat (subjectCount s)) (marks s)"

definition mean :: "int list \<Rightarrow> rat" where
  "mean xs = of_int (sum_list xs) / of_nat (length xs)"

definition deriveGrade :: "rat \<Rightarrow> char" where
  "deriveGrade a =
     (if 90 \<le> a then CHR ''A''
      else if 75 \<le> a \<and> a < 90 then CHR ''B''
      else if 60 \<le> a \<and> a < 75 then CHR ''C''
      else if 50 \<le> a \<and> a < 60 then CHR ''D''
      else CHR ''F'')"

text \<open>A record as the data model has it: between 1 and \<open>MAX_SUBJECTS\<close> scores, each in 0..100.\<close>

definition valid_scores :: "student \<Rightarrow> bool" where
  "valid_scores s \<longleftrightarrow>
     1 \<le> subjectCount s \<and> subjectCount s \<le> MAX_SUBJECTS \<and>
     length (marks s) = nat MAX_SUBJECTS \<and>
     list_all (\<lambda>m. 0 \<le> m \<and> m \<le> 100) (scores s)"

section \<open>Strings of the C library\<close>

definition NUL :: char where
  "NUL = CHR 0x00"

text \<open>The C string held in a buffer: the characters before the first terminator.\<close>

definition cstr :: "string \<Rightarrow> string" where
  "cstr b = takeWhile (\<lambda>c. c \<noteq> NUL) b"

definition c_tolower :: "char \<Rightarrow> char" where
  "c_tolower c =
     (let n = (of_char c :: nat) in if 65 \<le> n \<and> n \<le> 90 then char_of (n + 32) else c)"

definition uchar :: "char \<Rightarrow> int" where
  "uchar c = int (of_char c)"

text \<open>
  \<^verbatim>\<open>strcasecmp\<close>: the difference of the first two lower-cased bytes that differ, the
  terminator counting as 0.
\<close>

fun strcasecmp_loop :: "string \<Rightarrow> string \<Rightarrow> int" where
  "strcasecmp_loop [] [] = 0"
| "strcasecmp_loop [] (y # ys) = - uchar (c_tolower y)"
| "strcasecmp_loop (x # xs) [] = uchar (c_tolower x)"
| "strcasecmp_loop (x # xs) (y # ys) =
     (if c_tolower x \<noteq> c_tolower y then uchar (c_tolower x) - uchar (c_tolower y)
      else strcasecmp_loop xs ys)"

definition strcasecmp :: "string \<Rightarrow> string \<Rightarrow> int" where
  "strcasecmp a b = strcasecmp_loop (cstr a) (cstr b)"

definition isspace :: "char \<Rightarrow> bool" where
  "isspace c \<longleftrightarrow> (let n = (of_char c :: nat) in (9 \<le> n \<and> n \<le> 13) \<or> n = 32)"

definition isdigit :: "char \<Rightarrow> bool" where
  "isdigit c \<longleftrightarrow> (let n = (of_char c :: nat) in 48 \<le> n \<and> n \<le> 57)"

fun atoi_digits :: "string \<Rightarrow> int \<Rightarrow> int" where
  "atoi_digits [] acc = acc"
| "atoi_digits (c # cs) acc =
     (if isdigit c then atoi_digits cs (acc * 10 + (uchar c - 48)) else acc)"

text \<open>
  \<^verbatim>\<open>atoi\<close>: white space, an optional sign, then digits up to the first other character.
  The value is the mathematical one (the C result is unspecified beyond 32 bits).
\<close>

definition atoi :: "string \<Rightarrow> int" where
  "atoi str =
     (case dropWhile isspace str of
        [] \<Rightarrow> 0
      | c # cs \<Rightarrow>
          if c = CHR ''-'' then - atoi_digits cs 0
          else if c = CHR ''+'' then atoi_digits cs 0
          else atoi_digits (c # cs) 0)"

text \<open>
  \<^verbatim>\<open>strtok\<close> keeps one static pointer for the whole program. The model passes it
  along: \<open>None\<close> is a pointer with nothing left to scan, \<open>Some r\<close> a pointer to the rest \<open>r\<close>
  of the buffer scanned last. A call with a string starts on that string and forgets
  the pointer it had, a call with \<^verbatim>\<open>NULL\<close> goes on from the pointer.
\<close>

type_synonym saved = "string option"

definition strtok_scan :: "string \<Rightarrow> string \<Rightarrow> string option \<times> saved" where
  "strtok_scan str delim =
     (let s1 = dropWhile (\<lambda>c. c \<in> set delim) str
      in if s1 = [] then (None, None)
         else let tok = takeWhile (\<lambda>c. c \<notin> set delim) s1;
                  r = dropWhile (\<lambda>c. c \<notin> set delim) s1
              in (Some tok, if r = [] then None else Some (tl r)))"

definition strtok :: "string option \<Rightarrow> string \<Rightarrow> saved \<Rightarrow> string option \<times> saved" where
  "strtok str delim sv =
     (case str of
        Some b \<Rightarrow> strtok_scan b delim
      | None \<Rightarrow> (case sv of None \<Rightarrow> (None, None) | Some r \<Rightarrow> strtok_scan r delim))"

subsection \<open>Formatted output\<close>

definition digit_char :: "int \<Rightarrow> char" where
  "digit_char d = ''0123456789'' ! nat d"

text \<open>The decimal digits of a number that is not negative.\<close>

function show_digits :: "int \<Rightarrow> string" where
  "show_digits n =
     (if n < 10 then [digit_char n] else show_digits (n div 10) @ [digit_char (n mod 10)])"
  by pat_completeness auto
termination
  by (relation "measure nat") auto

declare show_digits.simps [simp del]

text \<open>\<^verbatim>\<open>%d\<close>\<close>

definition show_int :: "int \<Rightarrow> string" where
  "show_int i = (if i < 0 then CHR ''-'' # show_digits (- i) else show_digits i)"

text \<open>\<^verbatim>\<open>%.2f\<close>: the value rounded to two decimals (ties to even), sign first.\<close>

definition show_2f :: "rat \<Rightarrow> string" where
  "show_2f x =
     (let n = round_half_even (\<bar>x\<bar> * 100)
      in (if x < 0 then ''-'' else []) @ show_digits (n div 100) @ ''.'' @
         [digit_char (n mod 100 div 10), digit_char (n mod 10)])"

section \<open>The store and the file\<close>

text \<open>
  The global array \<^verbatim>\<open>students\<close> with \<^verbatim>\<open>studentCount\<close> is the list of live records;
  \<open>disk\<close> is the content of \<^verbatim>\<open>students.csv\<close> (\<open>None\<close>: no such file) and \<open>writable\<close>
  tells whether it can be opened for writing.
\<close>

record world =
  students :: "student list"
  disk :: "string option"
  writable :: bool

definition studentCount :: "world \<Rightarrow> int" where
  "studentCount w = int (length (students w))"

fun findMaxRoll_loop :: "student list \<Rightarrow> int \<Rightarrow> int" where
  "findMaxRoll_loop [] maxr = maxr"
| "findMaxRoll_loop (s # ss) maxr = findMaxRoll_loop ss (if maxr < roll s then roll s else maxr)"

definition findMaxRoll :: "world \<Rightarrow> int" where
  "findMaxRoll w = findMaxRoll_loop (students w) 0"

fun findIndexByRoll_loop :: "student list \<Rightarrow> int \<Rightarrow> int \<Rightarrow> int" where
  "findIndexByRoll_loop [] r i = - 1"
| "findIndexByRoll_loop (s # ss) r i = (if roll s = r then i else findIndexByRoll_loop ss r (i + 1))"

definition findIndexByRoll :: "world \<Rightarrow> int \<Rightarrow> int" where
  "findIndexByRoll w r = findIndexByRoll_loop (students w) r 0"

subsection \<open>Persistence\<close>

function saveAll_marks :: "student \<Rightarrow> int \<Rightarrow> string" where
  "saveAll_marks s j =
     (if j < subjectCount s
      then show_int (marks s ! nat j) @ (if j \<noteq> subjectCount s - 1 then '';'' else []) @
           saveAll_marks s (j + 1)
      else [])"
  by pat_completeness auto
termination
  by (relation "measure (\<lambda>(s, j). nat (subjectCount s - j))") auto

declare saveAll_marks.simps [simp del]

definition saveAll_line :: "student \<Rightarrow> string" where
  "saveAll_line s =
     show_int (roll s) @ '','' @ cstr (name s) @ '','' @ show_int (subjectCount s) @ '','' @
     saveAll_marks s 0 @ '','' @ show_2f (average s) @ '','' @ [grade s] @ [CHR 0x0A]"

definition saveAll_text :: "student list \<Rightarrow> string" where
  "saveAll_text st =
     ''roll,name,subjectCount,marks,average,grade'' @ [CHR 0x0A] @ concat (map saveAll_line st)"

definition saveAll :: "world \<Rightarrow> world" where
  "saveAll w = (if writable w then w\<lparr>disk := Some (saveAll_text (students w))\<rparr> else w)"

text \<open>
  \<^verbatim>\<open>fgets(line, size, fp)\<close> on the unread part \<open>f\<close> of the file: the line read, its newline
  included, of at most \<open>size - 1\<close> characters, and what is left of the file.
\<close>

definition fgets :: "nat \<Rightarrow> string \<Rightarrow> (string \<times> string) option" where
  "fgets sz f =
     (if f = [] then None
      else let k = min (sz - 1) (Suc (length (takeWhile (\<lambda>c. c \<noteq> CHR 0x0A) f)))
           in Some (take k f, drop k f))"

definition strip_eol :: "string \<Rightarrow> string" where
  "strip_eol p = (if p \<noteq> [] \<and> (last p = CHR 0x0A \<or> last p = CHR 0x0D) then butlast p else p)"

text \<open>The loop over the marks of a line, \<^verbatim>\<open>while (mtok && idx < s.subjectCount)\<close>.\<close>

function loadAll_marks ::
  "int \<Rightarrow> string option \<Rightarrow> int \<Rightarrow> int list \<Rightarrow> saved \<Rightarrow> int \<times> int list \<times> saved" where
  "loadAll_marks n mtok idx ms sv =
     (case mtok of
        None \<Rightarrow> (idx, ms, sv)
      | Some t \<Rightarrow>
          if idx < n
          then (case strtok None '';'' sv of
                  (mtok', sv') \<Rightarrow> loadAll_marks n mtok' (idx + 1) (ms[nat idx := atoi t]) sv')
          else (idx, ms, sv))"
  by pat_completeness auto
termination
  by (relation "measure (\<lambda>(n, mtok, idx, ms, sv). nat (n - idx))") auto

declare loadAll_marks.simps [simp del]

text \<open>
  One turn of the loop of \<^verbatim>\<open>loadAll\<close> on the line read: \<open>None\<close> is \<^verbatim>\<open>continue\<close>, \<open>Some s\<close>
  the record stored. The marks are split with \<^verbatim>\<open>strtok(tmp, ";")\<close> on a copy \<^verbatim>\<open>tmp\<close>
  of the fourth field, and this call moves the static pointer of \<^verbatim>\<open>strtok\<close> into
  \<^verbatim>\<open>tmp\<close>: the two calls \<^verbatim>\<open>strtok(NULL, ",")\<close> that follow go on from there. The
  conversion \<^verbatim>\<open>atof\<close> is a parameter (the value of the double it returns).
\<close>

definition loadAll_line :: "(string \<Rightarrow> rat) \<Rightarrow> string \<Rightarrow> student option" where
  "loadAll_line atof line =
     (let p = strip_eol (cstr line) in
      case strtok (Some p) '','' None of
        (None, sv1) \<Rightarrow> None
      | (Some tok1, sv1) \<Rightarrow>
      (case strtok None '','' sv1 of
        (None, sv2) \<Rightarrow> None
      | (Some tok2, sv2) \<Rightarrow>
      (case strtok None '','' sv2 of
        (None, sv3) \<Rightarrow> None
      | (Some tok3, sv3) \<Rightarrow>
      (let n = atoi tok3 in
       if n < 1 \<or> MAX_SUBJECTS < n then None
       else
      (case strtok None '','' sv3 of
        (None, sv4) \<Rightarrow> None
      | (Some tok4, sv4) \<Rightarrow>
      (case strtok (Some (take 511 tok4)) '';'' sv4 of
        (mtok, sv5) \<Rightarrow>
      (case loadAll_marks n mtok 0 (replicate (nat MAX_SUBJECTS) 0) sv5 of
        (idx, ms, sv6) \<Rightarrow>
       if idx \<noteq> n then None
       else
      (case strtok None '','' sv6 of
        (None, sv7) \<Rightarrow> None
      | (Some tok5, sv7) \<Rightarrow>
      (case strtok None '','' sv7 of
        (None, sv8) \<Rightarrow> None
      | (Some tok6, sv8) \<Rightarrow>
          Some \<lparr>roll = atoi tok1, name = take (MAX_NAME - 1) tok2, subjectCount = n,
                marks = ms, average = fl32 (atof tok5),
                grade = (case tok6 of [] \<Rightarrow> NUL | c # cs \<Rightarrow> c)\<rparr>)))))))))"

text \<open>\<^verbatim>\<open>while (fgets(line, sizeof(line), fp) && studentCount < MAX_STUDENTS)\<close>\<close>

function loadAll_loop :: "(string \<Rightarrow> rat) \<Rightarrow> string \<Rightarrow> student list \<Rightarrow> student list" where
  "loadAll_loop atof f st =
     (case fgets 1024 f of
        None \<Rightarrow> st
      | Some (line, rest) \<Rightarrow>
          if MAX_STUDENTS \<le> int (length st) then st
          else (case loadAll_line atof line of
                  None \<Rightarrow> loadAll_loop atof rest st
                | Some s \<Rightarrow> loadAll_loop atof rest (st @ [s])))"
  by pat_completeness auto
termination
  by (relation "measure (\<lambda>(atof, f, st). length f)")
    (auto simp: fgets_def Let_def split: if_splits)

declare loadAll_loop.simps [simp del]

definition loadAll :: "(string \<Rightarrow> rat) \<Rightarrow> world \<Rightarrow> world" where
  "loadAll atof w =
     (case disk w of
        None \<Rightarrow> w\<lparr>students := []\<rparr>
      | Some f \<Rightarrow>
          (case fgets 1024 f of
             None \<Rightarrow> w
           | Some (line, rest) \<Rightarrow>
               w\<lparr>students :=
                   loadAll_loop atof (if take 5 (cstr line) \<noteq> ''roll,'' then f else rest) []\<rparr>))"

section \<open>The operations of the menu\<close>

text \<open>
  How a call ended. \<open>SignedOverflow\<close> is the roll number leaving the range of \<^verbatim>\<open>int\<close>
  (undefined in C) and \<open>EndOfInput\<close> a prompt that never gets a valid answer (the call
  does not return): the world returned with these two has no meaning. The others are the
  C function returning, after the message of that name or after
  \<^verbatim>\<open>saveAll()\<close> (\<open>Done\<close>).
\<close>

datatype status =
  Done | CapacityExceeded | EmptyName | NameUnchanged | NoRecords | NotFound | Cancelled
  | SignedOverflow | EndOfInput

definition returns :: "status \<Rightarrow> bool" where
  "returns st \<longleftrightarrow> st \<noteq> SignedOverflow \<and> st \<noteq> EndOfInput"

subsection \<open>Console input\<close>

text \<open>
  \<^verbatim>\<open>inputIntInRange\<close> asks again until the number read lies in the range. \<open>inp\<close> is
  the sequence of numbers typed, one for each attempt (an answer that is not a number is
  asked again like a number out of range, and is left out); the result is the number
  accepted and the answers not yet read, \<open>None\<close> when no answer is accepted.
\<close>

fun inputIntInRange :: "int \<Rightarrow> int \<Rightarrow> int list \<Rightarrow> (int \<times> int list) option" where
  "inputIntInRange lo hi [] = None"
| "inputIntInRange lo hi (x # inp) =
     (if lo \<le> x \<and> x \<le> hi then Some (x, inp) else inputIntInRange lo hi inp)"

text \<open>\<^verbatim>\<open>safeGets(buf, size)\<close> on the line typed (without its newline).\<close>

definition safeGets :: "nat \<Rightarrow> string \<Rightarrow> string" where
  "safeGets sz line = take (sz - 1) (cstr line)"

definition sanitizeName :: "string \<Rightarrow> string" where
  "sanitizeName nm = map (\<lambda>c. if c = CHR '','' then CHR '' '' else c) nm"

text \<open>
  The loop \<^verbatim>\<open>for (i = 0; i < subjectCount; ++i) marks[i] = inputIntInRange(prompt, 0, 100);\<close>
  of \<^verbatim>\<open>addStudent\<close> and \<^verbatim>\<open>updateStudent\<close>.
\<close>

function input_marks :: "int \<Rightarrow> int \<Rightarrow> int list \<Rightarrow> int list \<Rightarrow> (int list \<times> int list) option" where
  "input_marks n i ms inp =
     (if i < n
      then (case inputIntInRange 0 100 inp of
              None \<Rightarrow> None
            | Some (v, inp') \<Rightarrow> input_marks n (i + 1) (ms[nat i := v]) inp')
      else Some (ms, inp))"
  by pat_completeness auto
termination
  by (relation "measure (\<lambda>(n, i, ms, inp). nat (n - i))") auto

declare input_marks.simps [simp del]

subsection \<open>addStudent\<close>

definition addStudent :: "world \<Rightarrow> string \<Rightarrow> int list \<Rightarrow> status \<times> world" where
  "addStudent w line inp =
     (if MAX_STUDENTS \<le> studentCount w then (CapacityExceeded, w)
      else case c_int (findMaxRoll w + 1) of
        None \<Rightarrow> (SignedOverflow, w)
      | Some r \<Rightarrow>
          (let buf = safeGets 256 line in
           if buf = [] then (EmptyName, w)
           else case inputIntInRange 1 MAX_SUBJECTS inp of
             None \<Rightarrow> (EndOfInput, w)
           | Some (n, inp1) \<Rightarrow>
               (case input_marks n 0 (replicate (nat MAX_SUBJECTS) 0) inp1 of
                  None \<Rightarrow> (EndOfInput, w)
                | Some (ms, inp2) \<Rightarrow>
                    (let s = recompute
                           \<lparr>roll = r, name = take (MAX_NAME - 1) (sanitizeName buf),
                            subjectCount = n, marks = ms, average = 0, grade = NUL\<rparr>
                     in (Done, saveAll (w\<lparr>students := students w @ [s]\<rparr>))))))"

subsection \<open>updateStudent\<close>

definition updateStudent :: "world \<Rightarrow> int list \<Rightarrow> string \<Rightarrow> status \<times> world" where
  "updateStudent w inp line =
     (if studentCount w = 0 then (NoRecords, w)
      else case inputIntInRange 1 1000000000 inp of
        None \<Rightarrow> (EndOfInput, w)
      | Some (r, inp1) \<Rightarrow>
          (let idx = findIndexByRoll w r in
           if idx < 0 then (NotFound, w)
           else
             (let s = students w ! nat idx in
              case inputIntInRange 1 3 inp1 of
                None \<Rightarrow> (EndOfInput, w)
              | Some (ch, inp2) \<Rightarrow>
                  if ch = 1 then
                    (let buf = safeGets 256 line in
                     if buf = [] then (NameUnchanged, w)
                     else
                       (let s1 = s\<lparr>name := take (MAX_NAME - 1) (sanitizeName buf)\<rparr>
                        in (Done, saveAll (w\<lparr>students := (students w)[nat idx := recompute s1]\<rparr>))))
                  else if ch = 2 then
                    (case inputIntInRange 1 MAX_SUBJECTS inp2 of
                       None \<Rightarrow> (EndOfInput, w)
                     | Some (n, inp3) \<Rightarrow>
                         (case input_marks n 0 (marks s) inp3 of
                            None \<Rightarrow> (EndOfInput, w)
                          | Some (ms, inp4) \<Rightarrow>
                              (let s1 = recompute (s\<lparr>subjectCount := n, marks := ms\<rparr>)
                               in (Done,
                                   saveAll (w\<lparr>students := (students w)[nat idx := recompute s1]\<rparr>)))))
                  else (Cancelled, w))))"

subsection \<open>deleteStudent\<close>

text \<open>\<^verbatim>\<open>for (i = idx; i < studentCount - 1; ++i) students[i] = students[i + 1];\<close>\<close>

function deleteStudent_shift :: "student list \<Rightarrow> nat \<Rightarrow> student list" where
  "deleteStudent_shift st i =
     (if int i < int (length st) - 1 then deleteStudent_shift (st[i := st ! (i + 1)]) (i + 1)
      else st)"
  by pat_completeness auto
termination
  by (relation "measure (\<lambda>(st, i). length st - i)") auto

declare deleteStudent_shift.simps [simp del]

text \<open>\<open>c\<close> is the character typed at the question \<^verbatim>\<open>(y/n)\<close>.\<close>

definition deleteStudent :: "world \<Rightarrow> int list \<Rightarrow> char \<Rightarrow> status \<times> world" where
  "deleteStudent w inp c =
     (if studentCount w = 0 then (NoRecords, w)
      else case inputIntInRange 1 1000000000 inp of
        None \<Rightarrow> (EndOfInput, w)
      | Some (r, inp1) \<Rightarrow>
          (let idx = findIndexByRoll w r in
           if idx < 0 then (NotFound, w)
           else if c \<noteq> CHR ''y'' \<and> c \<noteq> CHR ''Y'' then (Cancelled, w)
           else (Done,
                 saveAll (w\<lparr>students := butlast (deleteStudent_shift (students w) (nat idx))\<rparr>))))"

subsection \<open>Sorting\<close>

text \<open>
  A comparator gives an \<^verbatim>\<open>int\<close>, or \<open>None\<close> where its subtraction or negation overflows.
\<close>

type_synonym comparator = "student \<Rightarrow> student \<Rightarrow> int option"

definition cmpRollAsc :: comparator where
  "cmpRollAsc x y = c_int (roll x - roll y)"

definition cmpRollDesc :: comparator where
  "cmpRollDesc a b = (case cmpRollAsc a b of None \<Rightarrow> None | Some r \<Rightarrow> c_int (- r))"

definition cmpNameAsc :: comparator where
  "cmpNameAsc x y = c_int (strcasecmp (name x) (name y))"

definition cmpNameDesc :: comparator where
  "cmpNameDesc a b = (case cmpNameAsc a b of None \<Rightarrow> None | Some r \<Rightarrow> c_int (- r))"

definition cmpAvgAsc :: comparator where
  "cmpAvgAsc x y =
     (if average x < average y then Some (- 1)
      else if average y < average x then Some 1
      else Some 0)"

definition cmpAvgDesc :: comparator where
  "cmpAvgDesc a b = (case cmpAvgAsc a b of None \<Rightarrow> None | Some r \<Rightarrow> c_int (- r))"

text \<open>
  \<^verbatim>\<open>qsort\<close> belongs to the C library and is a parameter \<open>qsort\<close> of the model. What the
  C standard promises of it is \<open>qsort_contract\<close>: when the comparator is defined and is a
  total ordering on the elements of the array, the array afterwards holds the same
  elements, in ascending order of the comparator.
\<close>

definition cmp_le :: "('a \<Rightarrow> 'a \<Rightarrow> int option) \<Rightarrow> 'a \<Rightarrow> 'a \<Rightarrow> bool" where
  "cmp_le cmp a b = (case cmp a b of None \<Rightarrow> False | Some r \<Rightarrow> r \<le> 0)"

definition total_ordering :: "('a \<Rightarrow> 'a \<Rightarrow> int option) \<Rightarrow> 'a set \<Rightarrow> bool" where
  "total_ordering cmp A \<longleftrightarrow>
     (\<forall>a\<in>A. \<forall>b\<in>A. \<exists>r r'. cmp a b = Some r \<and> cmp b a = Some r' \<and> sgn r' = - sgn r) \<and>
     (\<forall>a\<in>A. \<forall>b\<in>A. \<forall>c\<in>A. cmp_le cmp a b \<and> cmp_le cmp b c \<longrightarrow> cmp_le cmp a c)"

definition qsort_contract :: "(comparator \<Rightarrow> student list \<Rightarrow> student list) \<Rightarrow> bool" where
  "qsort_contract qsort \<longleftrightarrow>
     (\<forall>cmp xs. total_ordering cmp (set xs) \<longrightarrow>
        mset (qsort cmp xs) = mset xs \<and> sorted_wrt (cmp_le cmp) (qsort cmp xs))"

text \<open>The \<^verbatim>\<open>switch (ch)\<close> of \<^verbatim>\<open>sortMenu\<close>, \<open>ch\<close> in 1..6.\<close>

definition sortMenu_cmp :: "int \<Rightarrow> comparator" where
  "sortMenu_cmp ch =
     (if ch = 1 then cmpRollAsc else if ch = 2 then cmpRollDesc
      else if ch = 3 then cmpNameAsc else if ch = 4 then cmpNameDesc
      else if ch = 5 then cmpAvgAsc else cmpAvgDesc)"

definition sortMenu ::
  "(comparator \<Rightarrow> student list \<Rightarrow> student list) \<Rightarrow> world \<Rightarrow> int list \<Rightarrow> status \<times> world" where
  "sortMenu qsort w inp =
     (if studentCount w = 0 then (NoRecords, w)
      else case inputIntInRange 1 6 inp of
        None \<Rightarrow> (EndOfInput, w)
      | Some (ch, inp1) \<Rightarrow>
          (Done, saveAll (w\<lparr>students := qsort (sortMenu_cmp ch) (students w)\<rparr>)))"

text \<open>An insertion sort, one function that meets the contract.\<close>

fun cmp_insert :: "('a \<Rightarrow> 'a \<Rightarrow> int option) \<Rightarrow> 'a \<Rightarrow> 'a list \<Rightarrow> 'a list" where
  "cmp_insert cmp x [] = [x]"
| "cmp_insert cmp x (y # ys) =
     (if cmp_le cmp x y then x # y # ys else y # cmp_insert cmp x ys)"

fun insertion_sort :: "('a \<Rightarrow> 'a \<Rightarrow> int option) \<Rightarrow> 'a list \<Rightarrow> 'a list" where
  "insertion_sort cmp [] = []"
| "insertion_sort cmp (x # xs) = cmp_insert cmp x (insertion_sort cmp xs)"

text \<open>
  The keys of the specification: a choice of \<^verbatim>\<open>sortMenu\<close> sorts by roll (1, 2), by name
  without regard to case (3, 4) or by average (5, 6), and its counterpart is the other
  direction on the same key.
\<close>

definition distinct_keys :: "int \<Rightarrow> student list \<Rightarrow> bool" where
  "distinct_keys ch st =
     (if ch \<le> 2 then distinct (map roll st)
      else if ch \<le> 4 then distinct (map (\<lambda>s. map c_tolower (cstr (name s))) st)
      else distinct (map average st))"

definition counterpart :: "int \<Rightarrow> int" where
  "counterpart ch = (if ch = 1 \<or> ch = 3 \<or> ch = 5 then ch + 1 else ch - 1)"

text \<open>
  The order each choice sorts by, on the keys: \<open>name_key\<close> is the name in lower case as
  a list of byte values, ordered as a dictionary orders words.
\<close>

definition name_key :: "student \<Rightarrow> int list" where
  "name_key s = map (\<lambda>c. uchar (c_tolower c)) (cstr (name s))"

definition key_le :: "int \<Rightarrow> student \<Rightarrow> student \<Rightarrow> bool" where
  "key_le ch a b =
     (if ch = 1 then roll a \<le> roll b else if ch = 2 then roll b \<le> roll a
      else if ch = 3 then name_key a \<le> name_key b else if ch = 4 then name_key b \<le> name_key a
      else if ch = 5 then average a \<le> average b else average b \<le> average a)"

text \<open>Rolls as the data model and the type \<^verbatim>\<open>int\<close> have them.\<close>

definition roll_ok :: "student \<Rightarrow> bool" where
  "roll_ok s \<longleftrightarrow> 1 \<le> roll s \<and> roll s \<le> INT_MAX"

subsection \<open>showStats\<close>

record stats =
  classAvg :: rat
  topIdx :: nat
  lowIdx :: nat
  gradeA :: int
  gradeB :: int
  gradeC :: int
  gradeD :: int
  gradeF :: int

text \<open>
  The state of the loop of \<^verbatim>\<open>showStats\<close>; \<open>classAvg\<close> holds \<^verbatim>\<open>classSum\<close> while the loop
  runs.
\<close>

definition showStats_step :: "student list \<Rightarrow> nat \<Rightarrow> stats \<Rightarrow> stats" where
  "showStats_step st i a =
     (let a1 = a\<lparr>classAvg := fadd (classAvg a) (average (st ! i))\<rparr>;
          a2 = (if average (st ! topIdx a1) < average (st ! i) then a1\<lparr>topIdx := i\<rparr> else a1);
          a3 = (if average (st ! i) < average (st ! lowIdx a2) then a2\<lparr>lowIdx := i\<rparr> else a2);
          g = grade (st ! i)
      in if g = CHR ''A'' then a3\<lparr>gradeA := gradeA a3 + 1\<rparr>
         else if g = CHR ''B'' then a3\<lparr>gradeB := gradeB a3 + 1\<rparr>
         else if g = CHR ''C'' then a3\<lparr>gradeC := gradeC a3 + 1\<rparr>
         else if g = CHR ''D'' then a3\<lparr>gradeD := gradeD a3 + 1\<rparr>
         else a3\<lparr>gradeF := gradeF a3 + 1\<rparr>)"

function showStats_loop :: "student list \<Rightarrow> nat \<Rightarrow> stats \<Rightarrow> stats" where
  "showStats_loop st i a =
     (if i < length st then showStats_loop st (i + 1) (showStats_step st i a) else a)"
  by pat_completeness auto
termination
  by (relation "measure (\<lambda>(st, i, a). length st - i)") auto

declare showStats_loop.simps [simp del]

text \<open>\<open>None\<close> is the message \<^verbatim>\<open>No records.\<close>\<close>

definition showStats :: "world \<Rightarrow> stats option" where
  "showStats w =
     (if studentCount w = 0 then None
      else
        (let a = showStats_loop (students w) 0
                   \<lparr>classAvg = 0, topIdx = 0, lowIdx = 0,
                    gradeA = 0, gradeB = 0, gradeC = 0, gradeD = 0, gradeF = 0\<rparr>
         in Some (a\<lparr>classAvg := fdiv (classAvg a) (float_of_int (studentCount w))\<rparr>)))"

text \<open>
  The mean of a list of floats as single precision computes it: the sum from left to
  right, each addition rounded, divided by the count.
\<close>

definition float_mean :: "rat list \<Rightarrow> rat" where
  "float_mean xs = fdiv (foldl fadd 0 xs) (float_of_int (int (length xs)))"

text \<open>The mean of the same list in exact arithmetic.\<close>

definition exact_mean :: "rat list \<Rightarrow> rat" where
  "exact_mean xs = sum_list xs / of_nat (length xs)"

section \<open>Runs of the program\<close>

text \<open>
  The worlds a run can be in: the array is empty when the program starts, the file is
  whatever is on the disk then and may change under the program, and each operation of
  the menu that returns leads from a world to the next.
\<close>

inductive reachable ::
  "(comparator \<Rightarrow> student list \<Rightarrow> student list) \<Rightarrow> (string \<Rightarrow> rat) \<Rightarrow> world \<Rightarrow> bool"
  for qsort :: "comparator \<Rightarrow> student list \<Rightarrow> student list" and atof :: "string \<Rightarrow> rat" where
  at_start: "students w = [] \<Longrightarrow> reachable qsort atof w"
| file_change: "reachable qsort atof w \<Longrightarrow> reachable qsort atof (w\<lparr>disk := d, writable := b\<rparr>)"
| after_load: "reachable qsort atof w \<Longrightarrow> reachable qsort atof (loadAll atof w)"
| after_add: "reachable qsort atof w \<Longrightarrow> addStudent w line inp = (st, w') \<Longrightarrow> returns st \<Longrightarrow>
        reachable qsort atof w'"
| after_update: "reachable qsort atof w \<Longrightarrow> updateStudent w inp line = (st, w') \<Longrightarrow> returns st \<Longrightarrow>
        reachable qsort atof w'"
| after_delete: "reachable qsort atof w \<Longrightarrow> deleteStudent w inp c = (st, w') \<Longrightarrow> returns st \<Longrightarrow>
        reachable qsort atof w'"
| after_sort: "reachable qsort atof w \<Longrightarrow> sortMenu qsort w inp = (st, w') \<Longrightarrow> returns st \<Longrightarrow>
        reachable qsort atof w'"

section \<open>Notions of the specification about the file\<close>

text \<open>The lines of a file as \<^verbatim>\<open>fgets\<close> delivers them, in order.\<close>

function file_lines :: "string \<Rightarrow> string list" where
  "file_lines f =
     (case fgets 1024 f of None \<Rightarrow> [] | Some (line, rest) \<Rightarrow> line # file_lines rest)"
  by pat_completeness auto
termination
  by (relation "measure length") (auto simp: fgets_def Let_def split: if_splits)

declare file_lines.simps [simp del]

text \<open>The fields of a text between separators \<open>d\<close>.\<close>

fun split_on :: "char \<Rightarrow> string \<Rightarrow> string list" where
  "split_on d [] = [[]]"
| "split_on d (c # cs) =
     (if c = d then [] # split_on d cs
      else (case split_on d cs of [] \<Rightarrow> [[c]] | x # xs \<Rightarrow> (c # x) # xs))"

text \<open>The fields of a line of the file: the text up to the line break, between commas.\<close>

definition line_fields :: "string \<Rightarrow> string list" where
  "line_fields line = split_on (CHR '','') (strip_eol (cstr line))"

text \<open>
  A line that parses, in the words of the specification: six fields between commas, a
  subject count in 1..\<open>MAX_SUBJECTS\<close>, and as many scores between semicolons as the
  subject count says. Any other line fails to parse.
\<close>

definition well_formed_line :: "string \<Rightarrow> bool" where
  "well_formed_line line =
     (let fs = line_fields line
      in length fs = 6 \<and> 1 \<le> atoi (fs ! 2) \<and> atoi (fs ! 2) \<le> MAX_SUBJECTS \<and>
         int (length (split_on (CHR '';'') (fs ! 3))) = atoi (fs ! 2))"

text \<open>The static pointer of \<^verbatim>\<open>strtok\<close> stands in a text with no comma.\<close>

definition comma_free :: "saved \<Rightarrow> bool" where
  "comma_free sv = (case sv of None \<Rightarrow> True | Some r \<Rightarrow> CHR '','' \<notin> set r)"

text \<open>What every world of a run satisfies: the rolls are distinct, positive and within \<^verbatim>\<open>int\<close>.\<close>

definition store_inv :: "world \<Rightarrow> bool" where
  "store_inv w \<longleftrightarrow> distinct (map roll (students w)) \<and> list_all roll_ok (students w)"

text \<open>
  A well-formed record: a name that is not empty, has no comma (nor a terminator or a
  line break, which a line typed cannot hold) and fits \<^verbatim>\<open>char name[MAX_NAME]\<close>, valid
  scores, a roll that is an \<^verbatim>\<open>int\<close>, an average that is a finite \<^verbatim>\<open>float\<close>, and a grade
  letter.
\<close>

definition well_formed :: "student \<Rightarrow> bool" where
  "well_formed s \<longleftrightarrow>
     name s \<noteq> [] \<and> length (name s) < MAX_NAME \<and>
     list_all (\<lambda>c. c \<noteq> CHR '','' \<and> c \<noteq> NUL \<and> c \<noteq> CHR 0x0A) (name s) \<and>
     valid_scores s \<and>
     INT_MIN \<le> roll s \<and> roll s \<le> INT_MAX \<and>
     \<bar>average s\<bar> < 2 ^ 128 \<and>
     grade s \<in> set ''ABCDF''"

section \<open>Example records and stores\<close>

definition alice :: student where
  "alice = \<lparr>roll = 1, name = ''Alice'', subjectCount = 3,
            marks = [85, 90, 78, 0, 0, 0, 0, 0, 0, 0], average = 0, grade = NUL\<rparr>"

definition asha :: student where
  "asha = \<lparr>roll = 1, name = ''Asha'', subjectCount = 1,
           marks = [90, 0, 0, 0, 0, 0, 0, 0, 0, 0], average = 90, grade = CHR ''A''\<rparr>"

definition asha_world :: world where
  "asha_world = \<lparr>students = [asha], disk = None, writable = True\<rparr>"

definition torn_file :: string where
  "torn_file =
     ''roll,name,subjectCount,marks,average,grade'' @ [CHR 0x0A] @
     ''2,Bob,3,40;45'' @ [CHR 0x0A] @ ''7,Eve,0,,0.00,F'' @ [CHR 0x0A]"

definition torn_world :: world where
  "torn_world = \<lparr>students = [], disk = Some torn_file, writable = True\<rparr>"

text \<open>A run: two students are added, the second is deleted, a third is added.\<close>

definition empty_world :: world where
  "empty_world = \<lparr>students = [], disk = None, writable = True\<rparr>"

definition run1 :: world where
  "run1 = snd (addStudent empty_world ''Ann'' [1, 50])"

definition run2 :: world where
  "run2 = snd (addStudent run1 ''Ben'' [2, 60, 61])"

definition run3 :: world where
  "run3 = snd (deleteStudent run2 [2] (CHR ''y''))"

definition run4 :: world where
  "run4 = snd (addStudent run3 ''Cy'' [1, 70])"

text \<open>A store whose only record has an average and a grade that do not fit its scores.\<close>

definition stale_world :: world where
  "stale_world = \<lparr>students = [alice], disk = None, writable = True\<rparr>"

text \<open>A store of three records with distinct rolls, names and averages.\<close>

definition run5 :: world where
  "run5 = snd (addStudent run4 ''bea'' [3, 90, 95, 100])"

text \<open>A store in which the greatest and the least average each occur twice.\<close>

definition tie_world :: world where
  "tie_world =
     \<lparr>students =
        [asha\<lparr>roll := 1, average := 50, grade := CHR ''D''\<rparr>, asha\<lparr>roll := 2\<rparr>,
         asha\<lparr>roll := 3, average := 50, grade := CHR ''D''\<rparr>, asha\<lparr>roll := 4\<rparr>],
      disk = None, writable = True\<rparr>"

definition run6 :: world where
  "run6 = snd (sortMenu insertion_sort run5 [2])"

text \<open>
  Two records that differ in the average only: a third (the quotient 253 / 3 as a
  \<^verbatim>\<open>float\<close>) and the \<^verbatim>\<open>float\<close> nearest to 84.33.
\<close>

definition alice_third :: student where
  "alice_third = recompute alice"

definition alice_cents :: student where
  "alice_cents = alice_third\<lparr>average := fl32 (8433 / 100)\<rparr>"

definition third_world :: world where
  "third_world = \<lparr>students = [alice_third], disk = None, writable = True\<rparr>"

definition cents_world :: world where
  "cents_world = \<lparr>students = [alice_cents], disk = None, writable = True\<rparr>"

text \<open>
  A store of three records, added one after the other, with the averages 21 / 8, 11 / 2
  and the \<^verbatim>\<open>float\<close> quotient 28 / 5.
\<close>

definition drift1 :: world where
  "drift1 = snd (addStudent empty_world ''Dee'' [8, 3, 3, 3, 3, 3, 2, 2, 2])"

definition drift2 :: world where
  "drift2 = snd (addStudent drift1 ''Eli'' [4, 6, 6, 5, 5])"

definition drift_world :: world where
  "drift_world = snd (addStudent drift2 ''Fay'' [5, 6, 6, 6, 5, 5])"

section \<open>The average and the grade\<close>

lemma recompute_loop_sum:
  "0 \<le> i \<Longrightarrow> i \<le> subjectCount s \<Longrightarrow> nat (subjectCount s) \<le> length (marks s) \<Longrightarrow>
   recompute_loop s i acc = acc + sum_list (drop (nat i) (scores s))"
proof (induction s i acc rule: recompute_loop.induct)
  case (1 s i acc)
  show ?case
  proof (cases "i < subjectCount s")
    case True
    have d: "drop (nat i) (scores s) = marks s ! nat i # drop (nat (i + 1)) (scores s)"
      using True 1(2,4) 
      by (simp add: scores_def nat_add_distrib Cons_nth_drop_Suc[symmetric] nat_less_iff)
    show ?thesis
      using True 1 by (subst recompute_loop.simps) (simp add: d)
  next
    case False
    then show ?thesis using 1 by (subst recompute_loop.simps) (simp add: scores_def)
  qed
qed

lemma bitlen_nonneg: "0 \<le> bitlen n"
  by (induction n rule: bitlen.induct) (simp add: bitlen.simps)

lemma bitlen_pos: "0 < n \<Longrightarrow> 0 < bitlen n"
  using bitlen_nonneg[of "n div 2"] by (simp add: bitlen.simps[of n])

lemma bitlen_le: "n < 2 ^ k \<Longrightarrow> bitlen n \<le> int k"
proof (induction k arbitrary: n)
  case 0
  then show ?case by (simp add: bitlen.simps[of n])
next
  case (Suc k)
  have "n div 2 < 2 ^ k" using Suc.prems by auto
  then have "bitlen (n div 2) \<le> int k" by (rule Suc.IH)
  then show ?case by (simp add: bitlen.simps[of n])
qed

lemma ilog2_less: "0 < x \<Longrightarrow> x < 2 ^ k \<Longrightarrow> ilog2 x < int k"
proof (cases "1 \<le> x")
  case True
  assume "x < 2 ^ k"
  then have "\<lfloor>x\<rfloor> < 2 ^ k" by (metis floor_less_iff of_int_numeral of_int_power)
  then have "bitlen \<lfloor>x\<rfloor> \<le> int k" by (rule bitlen_le)
  then show ?thesis using True by (simp add: ilog2_def)
next
  case False
  assume "0 < x"
  then have "1 < 1 / x" using False by simp
  then have "1 < \<lceil>1 / x\<rceil>" by (simp add: less_ceiling_iff)
  then have "0 < bitlen (\<lceil>1 / x\<rceil> - 1)" by (intro bitlen_pos) simp
  then show ?thesis using False by (simp add: ilog2_def)
qed

lemma rhe_err: "\<bar>of_int (round_half_even y) - y\<bar> \<le> 1 / 2"
proof -
  have "of_int \<lfloor>y\<rfloor> \<le> y" "y < of_int \<lfloor>y\<rfloor> + 1" by linarith+
  then show ?thesis
    unfolding round_half_even_def Let_def by (auto simp: abs_le_iff)
qed

lemma rhe_ge: "of_int n \<le> y \<Longrightarrow> n \<le> round_half_even y"
proof -
  assume "of_int n \<le> y"
  then have "n \<le> \<lfloor>y\<rfloor>" by (simp add: le_floor_iff)
  then show ?thesis
    unfolding round_half_even_def Let_def by auto
qed

lemma rhe_int: "round_half_even (of_int n) = n"
  unfolding round_half_even_def Let_def by simp

lemma fl32_grid:
  assumes "0 < x" "x < 2 ^ k" "k \<le> 24"
  shows "\<exists>j. 24 \<le> j + k \<and> fl32 x = of_int (round_half_even (x * 2 ^ j)) / 2 ^ j"
proof -
  define e where "e = max (- 126) (ilog2 x)"
  have "ilog2 x < int k" using assms by (simp add: ilog2_less)
  then have e: "e < int k" using assms by (simp add: e_def)
  define j where "j = nat (23 - e)"
  have q: "pow2 (e - 23) = 1 / 2 ^ j"
    using e assms(3) by (auto simp: pow2_def j_def)
  have "fl32 x = of_int (round_half_even (x / pow2 (e - 23))) * pow2 (e - 23)"
    using assms(1) by (simp add: fl32_def Let_def e_def)
  then have "fl32 x = of_int (round_half_even (x * 2 ^ j)) / 2 ^ j"
    by (simp add: q)
  moreover have "24 \<le> j + k" using e assms(3) by (simp add: j_def)
  ultimately show ?thesis by blast
qed

lemma fl32_of_int: 
  assumes "0 \<le> i" "i < 2 ^ 24"
  shows "fl32 (of_int i) = of_int i"
proof (cases "i = 0")
  case True
  then show ?thesis by (simp add: fl32_def)
next
  case False
  then have "0 < (of_int i :: rat)" using assms by simp
  moreover have "(of_int i :: rat) < 2 ^ 24" using assms(2) by (metis of_int_less_iff of_int_numeral of_int_power)
  ultimately obtain j where "fl32 (of_int i) = of_int (round_half_even (of_int i * 2 ^ j)) / 2 ^ j"
    using fl32_grid[of "of_int i" 24] by auto
  moreover have "round_half_even (of_int i * 2 ^ j) = i * 2 ^ j"
    using rhe_int[of "i * 2 ^ j"] by simp
  ultimately show ?thesis by simp
qed

lemma fl32_ge_int:
  assumes "0 < x" "x < 2 ^ k" "k \<le> 24" "of_int t \<le> x"
  shows "of_int t \<le> fl32 x"
proof -
  obtain j where j: "fl32 x = of_int (round_half_even (x * 2 ^ j)) / 2 ^ j"
    using fl32_grid[OF assms(1-3)] by auto
  have "(of_int (t * 2 ^ j) :: rat) \<le> x * 2 ^ j" using assms(4) by simp
  then have "t * 2 ^ j \<le> round_half_even (x * 2 ^ j)" by (rule rhe_ge)
  then have "(of_int (t * 2 ^ j) :: rat) \<le> of_int (round_half_even (x * 2 ^ j))"
    by (simp only: of_int_le_iff)
  then show ?thesis by (simp add: j pos_le_divide_eq)
qed

lemma fl32_err:
  assumes "0 < x" "x < 2 ^ k" "k \<le> 24"
  shows "\<bar>fl32 x - x\<bar> \<le> 1 / 2 ^ (25 - k)"
proof -
  obtain j where j: "24 \<le> j + k" "fl32 x = of_int (round_half_even (x * 2 ^ j)) / 2 ^ j"
    using fl32_grid[OF assms] by auto
  have "fl32 x - x = (of_int (round_half_even (x * 2 ^ j)) - x * 2 ^ j) / 2 ^ j"
    by (simp add: j diff_divide_distrib)
  then have "\<bar>fl32 x - x\<bar> = \<bar>of_int (round_half_even (x * 2 ^ j)) - x * 2 ^ j\<bar> / 2 ^ j"
    by (simp add: abs_divide)
  also have "\<dots> \<le> (1 / 2) / 2 ^ j"
    by (intro divide_right_mono rhe_err) simp
  also have "\<dots> = 1 / 2 ^ (Suc j)" by simp
  also have "\<dots> \<le> 1 / 2 ^ (25 - k)"
    using j(1) by (intro divide_left_mono power_increasing) auto
  finally show ?thesis .
qed

lemma fl32_threshold:
  fixes total n t :: int
  assumes "0 \<le> total" "1 \<le> n" "n \<le> 10" "total \<le> 100 * n" "0 < t"
  shows "of_int t \<le> fl32 (of_int total / of_int n) \<longleftrightarrow> (of_int t :: rat) \<le> of_int total / of_int n"
proof -
  define m :: rat where "m = of_int total / of_int n"
  have n0: "(0 :: rat) < of_int n" using assms(2) by simp
  have "of_int total \<le> (100 :: rat) * of_int n"
    using assms(4) by (metis of_int_le_iff of_int_mult of_int_numeral)
  then have m100: "m \<le> 100" using n0 by (simp add: m_def pos_divide_le_eq)
  have m0: "0 \<le> m" using assms(1) n0 by (simp add: m_def)
  have lt: "fl32 m < of_int t" if "m < of_int t"
  proof (cases "m = 0")
    case True
    then show ?thesis using assms(5) by (simp add: fl32_def)
  next
    case False
    then have pos: "0 < m" using m0 by simp
    have "m < 2 ^ 7" using m100 by simp
    from fl32_err[OF pos this] have err: "\<bar>fl32 m - m\<bar> \<le> 1 / 2 ^ 18" by simp
    have "of_int total < (of_int t :: rat) * of_int n"
      using that n0 by (simp add: m_def pos_divide_less_eq)
    then have "total < t * n" by (metis of_int_less_iff of_int_mult)
    then have "total + 1 \<le> t * n" by simp
    then have "(of_int (total + 1) :: rat) \<le> of_int (t * n)" by (simp only: of_int_le_iff)
    then have "(of_int total :: rat) + 1 \<le> of_int t * of_int n" by simp
    then have "m + 1 / of_int n \<le> of_int t"
      using n0 by (simp add: m_def add_divide_distrib[symmetric] pos_divide_le_eq)
    moreover have "(1 :: rat) / 10 \<le> 1 / of_int n"
      using assms(2,3) n0 by (intro divide_left_mono) auto
    ultimately have "m + 1 / 10 \<le> of_int t" by linarith
    moreover have "fl32 m - m \<le> \<bar>fl32 m - m\<bar>" by (rule abs_ge_self)
    moreover have "(1 :: rat) / 2 ^ 18 < 1 / 10" by simp
    ultimately show ?thesis using err by linarith
  qed
  have ge: "of_int t \<le> fl32 m" if "of_int t \<le> m"
  proof -
    have "0 < m" using that assms(5) by (smt (verit) of_int_0_less_iff order_less_le_trans)
    moreover have "m < 2 ^ 7" using m100 by simp
    ultimately show ?thesis using that by (intro fl32_ge_int[where k = 7]) auto
  qed
  show ?thesis using lt ge unfolding m_def[symmetric] by (meson not_le)
qed

lemma sum_list_bounds:
  "list_all (\<lambda>m. 0 \<le> m \<and> m \<le> 100) xs \<Longrightarrow> 0 \<le> sum_list xs \<and> sum_list xs \<le> 100 * int (length xs)"
  by (induction xs) auto

lemma recompute_valid:
  assumes "valid_scores s"
  shows "recompute s = s\<lparr>average := fl32 (mean (scores s)), grade := calculateGrade (fl32 (mean (scores s)))\<rparr>"
    and "calculateGrade (fl32 (mean (scores s))) = deriveGrade (mean (scores s))"
    and "\<bar>fl32 (mean (scores s)) - mean (scores s)\<bar> \<le> 1 / 2 ^ 18"
proof -
  define n where "n = subjectCount s"
  define total where "total = sum_list (scores s)"
  have n: "1 \<le> n" "n \<le> 10" and len: "length (marks s) = 10"
    and all: "list_all (\<lambda>m. 0 \<le> m \<and> m \<le> 100) (scores s)"
    using assms by (simp_all add: valid_scores_def n_def MAX_SUBJECTS_def)
  have ls: "length (scores s) = nat n" using n len by (simp add: scores_def n_def)
  have tot: "0 \<le> total" "total \<le> 100 * n"
    using sum_list_bounds[OF all] n by (simp_all add: total_def ls)
  have loop: "recompute_loop s 0 0 = total"
    using recompute_loop_sum[of 0 s 0] n len by (simp add: n_def total_def)
  have f1: "float_of_int total = of_int total"
    unfolding float_of_int_def using tot n by (intro fl32_of_int) auto
  have f2: "float_of_int n = of_int n"
    unfolding float_of_int_def using n by (intro fl32_of_int) auto
  have m: "mean (scores s) = of_int total / of_int n"
    using n by (simp add: mean_def ls total_def)
  show "recompute s = s\<lparr>average := fl32 (mean (scores s)), grade := calculateGrade (fl32 (mean (scores s)))\<rparr>"
    by (simp add: recompute_def Let_def loop n_def[symmetric] f1 f2 fdiv_def m)
  have thr: "of_int t \<le> fl32 (mean (scores s)) \<longleftrightarrow> of_int t \<le> mean (scores s)" if "0 < t" for t :: int
    unfolding m using tot n that by (intro fl32_threshold) auto
  have "calculateGrade (fl32 (mean (scores s))) = calculateGrade (mean (scores s))"
    using thr[of 90] thr[of 75] thr[of 60] thr[of 50] by (simp add: calculateGrade_def)
  then show "calculateGrade (fl32 (mean (scores s))) = deriveGrade (mean (scores s))"
    by (simp add: calculateGrade_def deriveGrade_def)
  show "\<bar>fl32 (mean (scores s)) - mean (scores s)\<bar> \<le> 1 / 2 ^ 18"
  proof (cases "total = 0")
    case True
    then show ?thesis by (simp add: m fl32_def)
  next
    case False
    then have "0 < mean (scores s)" using tot n by (simp add: m)
    moreover have "of_int total \<le> (100 :: rat) * of_int n"
      using tot(2) by (metis of_int_le_iff of_int_mult of_int_numeral)
    then have "mean (scores s) < 2 ^ 7" using n by (simp add: m pos_divide_less_eq)
    ultimately show ?thesis using fl32_err[of "mean (scores s)" 7] by simp
  qed
qed

lemma calculateGrade_table: "calculateGrade a = deriveGrade a"
  by (simp add: calculateGrade_def deriveGrade_def)

lemma calculateGrade_boundaries:
  "calculateGrade 90 = CHR ''A''" "calculateGrade (fl32 (8999 / 100)) = CHR ''B''"
  "calculateGrade 75 = CHR ''B''" "calculateGrade (fl32 (7499 / 100)) = CHR ''C''"
  "calculateGrade 60 = CHR ''C''" "calculateGrade (fl32 (5999 / 100)) = CHR ''D''"
  "calculateGrade 50 = CHR ''D''" "calculateGrade (fl32 (4999 / 100)) = CHR ''F''"
  by code_simp+

text \<open>
  C1. For a record with between 1 and \<open>MAX_SUBJECTS\<close> scores, each in 0..100,
  \<open>recompute\<close> changes the two derived fields only. The average becomes the quotient of
  the sum of the scores by their number, taken by the division of \<^verbatim>\<open>float\<close>: this is the
  arithmetic mean rounded to single precision, less than \<open>2 ^ (- 18)\<close> away from it. The
  grade is the first threshold of the table that the average reaches, each threshold
  included, and the rounding never moves an average across a threshold: the grade is that
  of the exact mean.
\<close>

theorem recompute_average_grade:
  "valid_scores s \<Longrightarrow>
     recompute s = s\<lparr>average := fl32 (mean (scores s)), grade := deriveGrade (mean (scores s))\<rparr> \<and>
     \<bar>fl32 (mean (scores s)) - mean (scores s)\<bar> \<le> 1 / 2 ^ 18 \<and>
     deriveGrade (fl32 (mean (scores s))) = deriveGrade (mean (scores s)) \<and>
     grade (recompute s) = calculateGrade (average (recompute s))"
  using recompute_valid[of s] by (simp add: calculateGrade_table)

theorem recompute_average_grade_witness:
  "valid_scores alice \<and>
   recompute alice = alice\<lparr>average := 11053739 / 131072, grade := CHR ''B''\<rparr> \<and>
   mean (scores alice) = 253 / 3"
proof -
  have v: "valid_scores alice"
    by (simp add: valid_scores_def alice_def MAX_SUBJECTS_def scores_def)
  have m: "mean (scores alice) = 253 / 3"
    by (simp add: mean_def scores_def alice_def)
  have f: "fl32 (253 / 3) = 11053739 / 131072"
    by code_simp
  show ?thesis
    using recompute_average_grade[OF v] v by (simp add: m f deriveGrade_def)
qed

section \<open>Loading the file\<close>

lemma strtok_scan_token_comma_free:
  assumes "strtok_scan b '','' = (Some t, sv)"
  shows "CHR '','' \<notin> set t"
proof
  assume c: "CHR '','' \<in> set t"
  from assms have "t = takeWhile (\<lambda>c. c \<notin> set '','') (dropWhile (\<lambda>c. c \<in> set '','') b)"
    by (simp add: strtok_scan_def Let_def split: if_splits)
  with c have "CHR '','' \<notin> set '',''"
    using set_takeWhileD by fastforce
  then show False by simp
qed

lemma strtok_scan_saved:
  assumes "strtok_scan b d = (m, Some r)"
    and "s1 = dropWhile (\<lambda>c. c \<in> set d) b" and "r1 = dropWhile (\<lambda>c. c \<notin> set d) s1"
  shows "r = tl r1"
proof (cases "s1 = []")
  case True
  with assms(1) show ?thesis
    unfolding strtok_scan_def Let_def assms(2)[symmetric] by simp
next
  case False
  with assms(1) show ?thesis
    unfolding strtok_scan_def Let_def assms(2)[symmetric] assms(3)[symmetric]
    by (simp split: if_splits)
qed

lemma strtok_scan_saved_subset:
  assumes "strtok_scan b d = (m, Some r)"
  shows "set r \<subseteq> set b"
proof
  fix c
  assume "c \<in> set r"
  then have "c \<in> set (tl (dropWhile (\<lambda>c. c \<notin> set d) (dropWhile (\<lambda>c. c \<in> set d) b)))"
    using strtok_scan_saved[OF assms refl refl] by simp
  then have "c \<in> set (dropWhile (\<lambda>c. c \<notin> set d) (dropWhile (\<lambda>c. c \<in> set d) b))"
    by (metis list.sel(2) list.set_sel(2))
  then have "c \<in> set (dropWhile (\<lambda>c. c \<in> set d) b)"
    by (rule set_dropWhileD)
  then show "c \<in> set b"
    by (rule set_dropWhileD)
qed

lemma strtok_scan_comma_free:
  "CHR '','' \<notin> set b \<Longrightarrow> strtok_scan b d = (m, sv) \<Longrightarrow> comma_free sv"
  using strtok_scan_saved_subset[of b d m] by (cases sv) (auto simp: comma_free_def)

lemma strtok_NULL_comma_free:
  "comma_free sv \<Longrightarrow> strtok None d sv = (m, sv') \<Longrightarrow> comma_free sv'"
proof (cases sv)
  case None
  assume "strtok None d sv = (m, sv')"
  with None show ?thesis by (simp add: strtok_def comma_free_def)
next
  case (Some r)
  assume "comma_free sv" "strtok None d sv = (m, sv')"
  with Some have "CHR '','' \<notin> set r" "strtok_scan r d = (m, sv')"
    by (simp_all add: strtok_def comma_free_def)
  then show ?thesis by (rule strtok_scan_comma_free)
qed

lemma loadAll_marks_comma_free:
  "comma_free sv \<Longrightarrow> loadAll_marks n mtok idx ms sv = (i, ms', sv') \<Longrightarrow> comma_free sv'"
proof (induction n mtok idx ms sv rule: loadAll_marks.induct)
  case (1 n mtok idx ms sv)
  show ?case
  proof (cases mtok)
    case None
    with 1 show ?thesis by (simp add: loadAll_marks.simps[of n None])
  next
    case (Some t)
    show ?thesis
    proof (cases "idx < n")
      case False
      with 1 Some show ?thesis by (simp add: loadAll_marks.simps[of n "Some t"])
    next
      case True
      obtain m1 sv1 where st: "strtok None '';'' sv = (m1, sv1)" by fastforce
      have cf: "comma_free sv1" using strtok_NULL_comma_free[OF "1.prems"(1) st] .
      have "loadAll_marks n m1 (idx + 1) (ms[nat idx := atoi t]) sv1 = (i, ms', sv')"
        using "1.prems"(2) Some True st by (simp add: loadAll_marks.simps[of n "Some t"])
      from "1.IH"[OF Some True st[symmetric] cf this] show ?thesis .
    qed
  qed
qed

lemma strtok_comma_last:
  "comma_free sv \<Longrightarrow> strtok None '','' sv = (Some t, sv') \<Longrightarrow> sv' = None"
proof (cases sv)
  case None
  assume "strtok None '','' sv = (Some t, sv')"
  with None show ?thesis by (simp add: strtok_def)
next
  case (Some r)
  assume cf: "comma_free sv" and a: "strtok None '','' sv = (Some t, sv')"
  have "dropWhile (\<lambda>c. c = CHR '','') r = r"
    using cf Some by (cases r) (auto simp: comma_free_def)
  moreover have "dropWhile (\<lambda>c. c \<noteq> CHR '','') r = []"
    using cf Some by (auto simp: comma_free_def)
  moreover have "strtok_scan r '','' = (Some t, sv')"
    using a Some by (simp add: strtok_def)
  ultimately show ?thesis
    by (simp add: strtok_scan_def Let_def split: if_splits)
qed

lemma strtok_NULL_None: "strtok None d None = (None, None)"
  by (simp add: strtok_def)


lemma strtok_token_comma_free:
  assumes "strtok str '','' sv = (Some t, sv')"
  shows "CHR '','' \<notin> set t"
proof (cases str)
  case (Some b)
  with assms show ?thesis by (simp add: strtok_def strtok_scan_token_comma_free)
next
  case None
  show ?thesis
  proof (cases sv)
    case None2: None
    with assms None show ?thesis by (simp add: strtok_def)
  next
    case (Some r)
    with assms None have "strtok_scan r '','' = (Some t, sv')" by (simp add: strtok_def)
    then show ?thesis by (rule strtok_scan_token_comma_free)
  qed
qed

lemma loadAll_line_tail:
  assumes "CHR '','' \<notin> set tmp"
    and "strtok (Some tmp) '';'' sv4 = (mtok, sv5)"
    and "loadAll_marks n mtok 0 ms0 sv5 = (idx, ms, sv6)"
    and "strtok None '','' sv6 = (Some tok5, sv7)"
  shows "strtok None '','' sv7 = (None, None)"
proof -
  have "strtok_scan tmp '';'' = (mtok, sv5)" using assms(2) by (simp add: strtok_def)
  then have "comma_free sv5" using assms(1) by (rule strtok_scan_comma_free[rotated])
  then have "comma_free sv6" using assms(3) by (rule loadAll_marks_comma_free)
  then have "sv7 = None" using assms(4) by (rule strtok_comma_last)
  then show ?thesis by (simp add: strtok_NULL_None)
qed

lemma loadAll_line_None: "loadAll_line atof line = None"
proof -
  have tail: "strtok None '','' sv7 = (Some tok6, sv8) \<Longrightarrow> False"
    if "strtok None '','' sv3 = (Some tok4, sv4)"
      and "strtok (Some (take 511 tok4)) '';'' sv4 = (mtok, sv5)"
      and "loadAll_marks n mtok 0 ms0 sv5 = (idx, ms, sv6)"
      and "strtok None '','' sv6 = (Some tok5, sv7)"
    for sv3 tok4 sv4 mtok sv5 n ms0 idx ms sv6 tok5 sv7 tok6 sv8
  proof -
    have "CHR '','' \<notin> set tok4" using that(1) by (rule strtok_token_comma_free)
    then have "CHR '','' \<notin> set (take 511 tok4)" by (auto dest: in_set_takeD)
    from loadAll_line_tail[OF this that(2,3,4)]
    show "strtok None '','' sv7 = (Some tok6, sv8) \<Longrightarrow> False" by simp
  qed
  show ?thesis
    unfolding loadAll_line_def Let_def
    by (auto split: prod.splits option.splits dest: tail)
qed

lemma loadAll_loop_id: "loadAll_loop atof f st = st"
proof (induction atof f st rule: loadAll_loop.induct)
  case (1 atof f st)
  show ?case
  proof (cases "fgets 1024 f")
    case None
    then show ?thesis by (simp add: loadAll_loop.simps[of atof f])
  next
    case (Some a)
    obtain line rest where a: "a = (line, rest)" by (cases a)
    show ?thesis
    proof (cases "MAX_STUDENTS \<le> int (length st)")
      case True
      with Some a show ?thesis by (simp add: loadAll_loop.simps[of atof f])
    next
      case False
      have "loadAll_loop atof rest st = st"
        using "1.IH"(1)[OF Some a[symmetric] False loadAll_line_None] .
      then show ?thesis
        using Some a False by (simp add: loadAll_loop.simps[of atof f] loadAll_line_None)
    qed
  qed
qed

lemma loadAll_students:
  "students (loadAll atof w) =
     (case disk w of None \<Rightarrow> [] | Some f \<Rightarrow> if f = [] then students w else [])"
  by (auto simp: loadAll_def loadAll_loop_id fgets_def Let_def split: option.splits)

section \<open>The text that \<^verbatim>\<open>saveAll\<close> writes\<close>

lemma digit_char_props:
  assumes "0 \<le> d" "d < 10"
  shows "isdigit (digit_char d)" "uchar (digit_char d) - 48 = d"
    "digit_char d \<noteq> CHR '',''" "digit_char d \<noteq> CHR '';''" "digit_char d \<noteq> NUL"
    "digit_char d \<noteq> CHR 0x0A" "digit_char d \<noteq> CHR ''-''" "digit_char d \<noteq> CHR ''+''"
    "\<not> isspace (digit_char d)"
proof -
  have "d = 0 \<or> d = 1 \<or> d = 2 \<or> d = 3 \<or> d = 4 \<or> d = 5 \<or> d = 6 \<or> d = 7 \<or> d = 8 \<or> d = 9"
    using assms by arith
  then show "isdigit (digit_char d)" "uchar (digit_char d) - 48 = d"
    "digit_char d \<noteq> CHR '',''" "digit_char d \<noteq> CHR '';''" "digit_char d \<noteq> NUL"
    "digit_char d \<noteq> CHR 0x0A" "digit_char d \<noteq> CHR ''-''" "digit_char d \<noteq> CHR ''+''"
    "\<not> isspace (digit_char d)"
    by (auto simp: digit_char_def isdigit_def isspace_def uchar_def NUL_def Let_def)
qed


lemma show_digits_nonempty: "show_digits n \<noteq> []"
  by (simp add: show_digits.simps[of n])

lemma show_digits_chars:
  "0 \<le> n \<Longrightarrow> c \<in> set (show_digits n) \<Longrightarrow> isdigit c \<and> c \<noteq> CHR '','' \<and> c \<noteq> CHR '';'' \<and> c \<noteq> NUL \<and> c \<noteq> CHR 0x0A"
proof (induction n rule: show_digits.induct)
  case (1 n)
  show ?case
  proof (cases "n < 10")
    case True
    then show ?thesis using "1.prems" digit_char_props[of n]
      by (auto simp: show_digits.simps[of n])
  next
    case False
    have m: "0 \<le> n mod 10" "n mod 10 < 10" by simp_all
    have "0 \<le> n div 10" using "1.prems"(1) by simp
    then show ?thesis using False "1.prems" "1.IH" digit_char_props[OF m]
      by (auto simp: show_digits.simps[of n])
  qed
qed

lemma atoi_digits_append:
  "list_all isdigit xs \<Longrightarrow> atoi_digits (xs @ ys) acc = atoi_digits ys (atoi_digits xs acc)"
  by (induction xs arbitrary: acc) auto

lemma atoi_digits_show_digits:
  "0 \<le> n \<Longrightarrow> atoi_digits (show_digits n) 0 = n"
proof (induction n rule: show_digits.induct)
  case (1 n)
  show ?case
  proof (cases "n < 10")
    case True
    then show ?thesis using "1.prems" digit_char_props(1,2)[of n]
      by (simp add: show_digits.simps[of n])
  next
    case False
    have m: "0 \<le> n mod 10" "n mod 10 < 10" by simp_all
    have d: "0 \<le> n div 10" using "1.prems" by simp
    have all: "list_all isdigit (show_digits (n div 10))"
      using show_digits_chars[OF d] by (auto simp: list_all_iff)
    have "atoi_digits (show_digits n) 0 = atoi_digits [digit_char (n mod 10)] (atoi_digits (show_digits (n div 10)) 0)"
      using False by (simp add: show_digits.simps[of n] atoi_digits_append[OF all])
    also have "\<dots> = (n div 10) * 10 + n mod 10"
      using "1.IH"[OF False d] digit_char_props(1,2)[OF m] by simp
    finally show ?thesis by simp
  qed
qed

lemma show_digits_first:
  assumes "0 \<le> n"
  shows "\<exists>c cs. show_digits n = c # cs \<and> isdigit c"
proof -
  obtain c cs where c: "show_digits n = c # cs"
    using show_digits_nonempty[of n] by (cases "show_digits n") auto
  then have "isdigit c" using show_digits_chars[OF assms, of c] by simp
  with c show ?thesis by blast
qed

lemma isdigit_not_space: "isdigit c \<Longrightarrow> \<not> isspace c \<and> c \<noteq> CHR ''-'' \<and> c \<noteq> CHR ''+''"
  by (auto simp: isdigit_def isspace_def Let_def)

lemma atoi_show_int: "atoi (show_int i) = i"
proof (cases "i < 0")
  case True
  then have "0 \<le> - i" by simp
  then have "atoi_digits (show_digits (- i)) 0 = - i" by (rule atoi_digits_show_digits)
  then show ?thesis using True by (simp add: atoi_def show_int_def isspace_def)
next
  case False
  then have i: "0 \<le> i" by simp
  obtain c cs where c: "show_digits i = c # cs" "isdigit c"
    using show_digits_first[OF i] by blast
  then show ?thesis
    using False isdigit_not_space[OF c(2)] atoi_digits_show_digits[OF i]
    by (simp add: atoi_def show_int_def)
qed

lemma show_int_chars:
  "c \<in> set (show_int i) \<Longrightarrow> c \<noteq> CHR '','' \<and> c \<noteq> CHR '';'' \<and> c \<noteq> NUL \<and> c \<noteq> CHR 0x0A"
proof (cases "i < 0")
  case True
  assume "c \<in> set (show_int i)"
  then have "c = CHR ''-'' \<or> c \<in> set (show_digits (- i))"
    using True by (simp add: show_int_def)
  then show ?thesis using show_digits_chars[of "- i" c] True by (auto simp: NUL_def)
next
  case False
  assume "c \<in> set (show_int i)"
  then show ?thesis using show_digits_chars[of i c] False by (simp add: show_int_def)
qed

lemma rhe_nonneg: "0 \<le> y \<Longrightarrow> 0 \<le> round_half_even y"
  using rhe_ge[of 0 y] by simp

lemma show_2f_chars:
  "c \<in> set (show_2f x) \<Longrightarrow> c \<noteq> CHR '','' \<and> c \<noteq> NUL \<and> c \<noteq> CHR 0x0A"
proof -
  define n where "n = round_half_even (\<bar>x\<bar> * 100)"
  have n: "0 \<le> n" unfolding n_def by (rule rhe_nonneg) simp
  then have d: "0 \<le> n div 100" by simp
  have a: "0 \<le> n mod 100 div 10" "n mod 100 div 10 < 10" by simp_all
  have b: "0 \<le> n mod 10" "n mod 10 < 10" by simp_all
  assume "c \<in> set (show_2f x)"
  then have "c = CHR ''-'' \<or> c \<in> set (show_digits (n div 100)) \<or> c = CHR ''.'' \<or>
      c = digit_char (n mod 100 div 10) \<or> c = digit_char (n mod 10)"
    by (auto simp: show_2f_def Let_def n_def split: if_splits)
  then show ?thesis
    using show_digits_chars[OF d, of c] digit_char_props[OF a] digit_char_props[OF b]
    by (auto simp: NUL_def)
qed

lemma split_on_nonempty: "split_on d xs \<noteq> []"
  by (induction xs) (auto split: list.splits)

lemma split_on_no_sep: "d \<notin> set a \<Longrightarrow> split_on d a = [a]"
  by (induction a) auto

lemma split_on_append: "d \<notin> set a \<Longrightarrow> split_on d (a @ d # r) = a # split_on d r"
  by (induction a) (auto split: list.splits simp: split_on_nonempty)

lemma saveAll_marks_end: "subjectCount s \<le> j \<Longrightarrow> saveAll_marks s j = []"
  by (simp add: saveAll_marks.simps[of s j])

lemma saveAll_marks_step:
  "j < subjectCount s \<Longrightarrow>
   saveAll_marks s j =
     show_int (marks s ! nat j) @ (if j \<noteq> subjectCount s - 1 then '';'' else []) @
     saveAll_marks s (j + 1)"
  by (subst saveAll_marks.simps) simp

lemma saveAll_marks_chars:
  "c \<in> set (saveAll_marks s j) \<Longrightarrow> c \<noteq> CHR '','' \<and> c \<noteq> NUL \<and> c \<noteq> CHR 0x0A"
proof (induction s j rule: saveAll_marks.induct)
  case (1 s j)
  show ?case
  proof (cases "j < subjectCount s")
    case True
    then have "c \<in> set (show_int (marks s ! nat j)) \<or> c = CHR '';'' \<or>
        c \<in> set (saveAll_marks s (j + 1))"
      using "1.prems" by (auto simp: saveAll_marks.simps[of s j] split: if_splits)
    then show ?thesis
      using show_int_chars[of c "marks s ! nat j"] "1.IH"[OF True] by (auto simp: NUL_def)
  next
    case False
    then show ?thesis using "1.prems" by (simp add: saveAll_marks.simps[of s j])
  qed
qed

lemma saveAll_marks_split:
  assumes "0 \<le> j" "j < subjectCount s" "subjectCount s \<le> int (length (marks s))"
  shows "split_on (CHR '';'') (saveAll_marks s j) = map show_int (drop (nat j) (scores s))"
  using assms
proof (induction s j rule: saveAll_marks.induct)
  case (1 s j)
  have len: "length (scores s) = nat (subjectCount s)"
    using "1.prems" by (simp add: scores_def)
  have lt: "nat j < length (scores s)" using "1.prems" len by simp
  have nth: "scores s ! nat j = marks s ! nat j"
    using "1.prems" by (simp add: scores_def)
  have dr: "drop (nat j) (scores s) = marks s ! nat j # drop (nat (j + 1)) (scores s)"
    using Cons_nth_drop_Suc[OF lt] nth "1.prems"(1) by (simp add: nat_add_distrib)
  have ns: "CHR '';'' \<notin> set (show_int (marks s ! nat j))"
    using show_int_chars by blast
  show ?case
  proof (cases "j = subjectCount s - 1")
    case True
    then have e: "saveAll_marks s (j + 1) = []" by (simp add: saveAll_marks_end)
    have "saveAll_marks s j = show_int (marks s ! nat j)"
      unfolding saveAll_marks_step[OF "1.prems"(2)] e using True by simp
    moreover have "drop (nat (j + 1)) (scores s) = []" using True len by simp
    ultimately show ?thesis using dr ns by (simp add: split_on_no_sep)
  next
    case False
    then have j1: "j + 1 < subjectCount s" using "1.prems" by simp
    have "saveAll_marks s j = show_int (marks s ! nat j) @ CHR '';'' # saveAll_marks s (j + 1)"
      unfolding saveAll_marks_step[OF "1.prems"(2)] using False by simp
    then have "split_on (CHR '';'') (saveAll_marks s j) =
        show_int (marks s ! nat j) # split_on (CHR '';'') (saveAll_marks s (j + 1))"
      using ns by (simp add: split_on_append)
    also have "split_on (CHR '';'') (saveAll_marks s (j + 1)) =
        map show_int (drop (nat (j + 1)) (scores s))"
      using "1.IH"[OF "1.prems"(2) _ j1 "1.prems"(3)] "1.prems"(1) by simp
    finally show ?thesis using dr by simp
  qed
qed

lemma map_atoi_show_int: "map atoi (map show_int xs) = xs"
  by (induction xs) (simp_all add: atoi_show_int)

lemma show_digits_length: "n < 10 ^ k \<Longrightarrow> 0 < k \<Longrightarrow> length (show_digits n) \<le> k"
proof (induction n arbitrary: k rule: show_digits.induct)
  case (1 n)
  show ?case
  proof (cases "n < 10")
    case True
    then show ?thesis using "1.prems" by (simp add: show_digits.simps[of n])
  next
    case False
    obtain k' where k: "k = Suc k'" using "1.prems"(2) by (cases k) auto
    have "k' \<noteq> 0" using False "1.prems"(1) k by (cases k') auto
    then have k0: "0 < k'" by simp
    have "n div 10 < 10 ^ k'" using "1.prems"(1) k by simp
    from "1.IH"[OF False this k0] show ?thesis
      using False k by (simp add: show_digits.simps[of n])
  qed
qed

lemma show_int_length: "- (10 ^ k) < i \<Longrightarrow> i < 10 ^ k \<Longrightarrow> 0 < k \<Longrightarrow> length (show_int i) \<le> Suc k"
  using show_digits_length[of i k] show_digits_length[of "- i" k]
  by (auto simp: show_int_def)

lemma cstr_id: "NUL \<notin> set b \<Longrightarrow> cstr b = b"
  by (auto simp: cstr_def takeWhile_eq_all_conv)

lemma strip_eol_line: "strip_eol (b @ [CHR 0x0A]) = b"
  by (simp add: strip_eol_def)

lemma split_on_six:
  assumes "d \<notin> set f1" "d \<notin> set f2" "d \<notin> set f3" "d \<notin> set f4" "d \<notin> set f5" "d \<notin> set f6"
  shows "split_on d (f1 @ d # f2 @ d # f3 @ d # f4 @ d # f5 @ d # f6) = [f1, f2, f3, f4, f5, f6]"
  using assms by (simp add: split_on_append split_on_no_sep)

lemma fgets_line:
  assumes "CHR 0x0A \<notin> set l" "length l < 1023"
  shows "fgets 1024 (l @ CHR 0x0A # rest) = Some (l @ [CHR 0x0A], rest)"
proof -
  have "takeWhile (\<lambda>c. c \<noteq> CHR 0x0A) (l @ CHR 0x0A # rest) = l"
    using assms(1) by (induction l) auto
  then have k: "min (1024 - 1) (Suc (length (takeWhile (\<lambda>c. c \<noteq> CHR 0x0A) (l @ CHR 0x0A # rest)))) =
      Suc (length l)"
    using assms(2) by simp
  have "take (Suc (length l)) (l @ CHR 0x0A # rest) = l @ [CHR 0x0A]"
    and "drop (Suc (length l)) (l @ CHR 0x0A # rest) = rest"
    by simp_all
  then show ?thesis unfolding fgets_def Let_def k by simp
qed

lemma file_lines_Nil: "file_lines [] = []"
  by (simp add: file_lines.simps fgets_def)

lemma file_lines_line:
  assumes "CHR 0x0A \<notin> set l" "length l < 1023"
  shows "file_lines (l @ CHR 0x0A # rest) = (l @ [CHR 0x0A]) # file_lines rest"
  by (subst file_lines.simps) (simp add: fgets_line[OF assms])

lemma saveAll_marks_length:
  assumes "0 \<le> j" "subjectCount s \<le> int (length (marks s))"
    "list_all (\<lambda>m. 0 \<le> m \<and> m \<le> 100) (scores s)"
  shows "length (saveAll_marks s j) \<le> 4 * nat (subjectCount s - j)"
  using assms
proof (induction s j rule: saveAll_marks.induct)
  case (1 s j)
  show ?case
  proof (cases "j < subjectCount s")
    case True
    have "nat j < length (scores s)" using True "1.prems" by (simp add: scores_def)
    then have "scores s ! nat j \<in> set (scores s)" by (rule nth_mem)
    moreover have "scores s ! nat j = marks s ! nat j"
      using True "1.prems" by (simp add: scores_def)
    ultimately have m: "0 \<le> marks s ! nat j" "marks s ! nat j \<le> 100"
      using "1.prems"(3) by (auto simp: list_all_iff)
    have "length (show_digits (marks s ! nat j)) \<le> 3"
      using m by (intro show_digits_length) simp_all
    then have a: "length (show_int (marks s ! nat j)) \<le> 3"
      using m by (simp add: show_int_def)
    have "length (saveAll_marks s (j + 1)) \<le> 4 * nat (subjectCount s - (j + 1))"
      using "1.IH"[OF True _ "1.prems"(2,3)] "1.prems"(1) by simp
    moreover have "nat (subjectCount s - j) = Suc (nat (subjectCount s - (j + 1)))"
      using True by simp
    moreover have "length (if j \<noteq> subjectCount s - 1 then '';'' else []) \<le> 1"
      by simp
    ultimately show ?thesis
      unfolding saveAll_marks_step[OF True] using a by (simp split del: if_split)
  next
    case False
    then show ?thesis by (simp add: saveAll_marks_end)
  qed
qed

lemma show_2f_length:
  assumes "\<bar>x\<bar> < 2 ^ 128"
  shows "length (show_2f x) \<le> 43"
proof -
  define n where "n = round_half_even (\<bar>x\<bar> * 100)"
  have "\<bar>of_int n - \<bar>x\<bar> * 100\<bar> \<le> 1 / 2" unfolding n_def by (rule rhe_err)
  then have "(of_int n :: rat) \<le> \<bar>x\<bar> * 100 + 1 / 2" by linarith
  also have "\<dots> < 2 ^ 128 * 100 + 1 / 2" using assms by simp
  finally have "(of_int n :: rat) < of_int (2 ^ 128 * 100 + 1)" by simp
  then have "n < 2 ^ 128 * 100 + 1" by (simp only: of_int_less_iff)
  then have "n div 100 < 10 ^ 39" by simp
  then have "length (show_digits (n div 100)) \<le> 39" by (rule show_digits_length) simp
  then show ?thesis by (simp add: show_2f_def Let_def n_def[symmetric])
qed

lemma show_int_free:
  "CHR '','' \<notin> set (show_int i)" "NUL \<notin> set (show_int i)" "CHR 0x0A \<notin> set (show_int i)"
  using show_int_chars by blast+

lemma show_2f_free:
  "CHR '','' \<notin> set (show_2f x)" "NUL \<notin> set (show_2f x)" "CHR 0x0A \<notin> set (show_2f x)"
  using show_2f_chars by blast+

lemma saveAll_marks_free:
  "CHR '','' \<notin> set (saveAll_marks s j)" "NUL \<notin> set (saveAll_marks s j)"
  "CHR 0x0A \<notin> set (saveAll_marks s j)"
  using saveAll_marks_chars by blast+

lemma saveAll_line_body:
  assumes "well_formed s"
  shows "\<exists>b. saveAll_line s = b @ [CHR 0x0A] \<and> CHR 0x0A \<notin> set b \<and> NUL \<notin> set b \<and>
           length b < 1023 \<and>
           split_on (CHR '','') b =
             [show_int (roll s), name s, show_int (subjectCount s), saveAll_marks s 0,
              show_2f (average s), [grade s]]"
proof -
  have nm: "CHR '','' \<notin> set (name s)" "NUL \<notin> set (name s)" "CHR 0x0A \<notin> set (name s)"
    using assms by (auto simp: well_formed_def list_all_iff)
  have g: "grade s \<noteq> CHR '',''" "grade s \<noteq> NUL" "grade s \<noteq> CHR 0x0A"
    using assms by (auto simp: well_formed_def NUL_def)
  have vs: "valid_scores s" using assms by (simp add: well_formed_def)
  define b where "b = show_int (roll s) @ CHR '','' # name s @ CHR '','' #
      show_int (subjectCount s) @ CHR '','' # saveAll_marks s 0 @ CHR '','' #
      show_2f (average s) @ CHR '','' # [grade s]"
  have line: "saveAll_line s = b @ [CHR 0x0A]"
    by (simp add: saveAll_line_def b_def cstr_id[OF nm(2)])
  have nl: "CHR 0x0A \<notin> set b"
    unfolding b_def using nm(3) g(3) show_int_free(3) show_2f_free(3) saveAll_marks_free(3)
    by simp
  have nul: "NUL \<notin> set b"
    unfolding b_def using nm(2) g(2) show_int_free(2) show_2f_free(2) saveAll_marks_free(2)
    by (simp add: NUL_def)
  have "- (10 ^ 10) < roll s" "roll s < 10 ^ 10"
    using assms by (simp_all add: well_formed_def INT_MIN_def INT_MAX_def)
  then have l1: "length (show_int (roll s)) \<le> 11"
    using show_int_length[of 10 "roll s"] by simp
  have l2: "length (name s) < 100"
    using assms by (simp add: well_formed_def MAX_NAME_def)
  have sc: "1 \<le> subjectCount s" "subjectCount s \<le> 10" "subjectCount s \<le> int (length (marks s))"
    using vs by (simp_all add: valid_scores_def MAX_SUBJECTS_def)
  then have l3: "length (show_int (subjectCount s)) \<le> 3"
    using show_int_length[of 2 "subjectCount s"] by simp
  have "length (saveAll_marks s 0) \<le> 4 * nat (subjectCount s - 0)"
    using vs sc(3) by (intro saveAll_marks_length) (simp_all add: valid_scores_def)
  then have l4: "length (saveAll_marks s 0) \<le> 40" using sc by simp
  have l5: "length (show_2f (average s)) \<le> 43"
    using assms by (intro show_2f_length) (simp add: well_formed_def)
  have len: "length b < 1023"
    unfolding b_def using l1 l2 l3 l4 l5 by simp
  have "split_on (CHR '','') b =
      [show_int (roll s), name s, show_int (subjectCount s), saveAll_marks s 0,
       show_2f (average s), [grade s]]"
    unfolding b_def
    using nm(1) g(1) show_int_free(1) show_2f_free(1) saveAll_marks_free(1)
    by (intro split_on_six) simp_all
  with line nl nul len show ?thesis by blast
qed

lemma saveAll_line_fields:
  assumes "well_formed s"
  shows "line_fields (saveAll_line s) =
     [show_int (roll s), name s, show_int (subjectCount s), saveAll_marks s 0,
      show_2f (average s), [grade s]]"
proof -
  obtain b where b: "saveAll_line s = b @ [CHR 0x0A]" "NUL \<notin> set b"
      "split_on (CHR '','') b =
         [show_int (roll s), name s, show_int (subjectCount s), saveAll_marks s 0,
          show_2f (average s), [grade s]]"
    using saveAll_line_body[OF assms] by blast
  have "NUL \<notin> set (b @ [CHR 0x0A])" using b(2) by (simp add: NUL_def)
  then have "cstr (saveAll_line s) = b @ [CHR 0x0A]" unfolding b(1) by (rule cstr_id)
  then show ?thesis by (simp add: line_fields_def strip_eol_line b(3))
qed

lemma saveAll_marks_scores:
  assumes "valid_scores s"
  shows "split_on (CHR '';'') (saveAll_marks s 0) = map show_int (scores s)"
  using saveAll_marks_split[of 0 s] assms by (simp add: valid_scores_def MAX_SUBJECTS_def)

lemma file_lines_saveAll_lines:
  "list_all well_formed st \<Longrightarrow> file_lines (concat (map saveAll_line st)) = map saveAll_line st"
proof (induction st)
  case Nil
  then show ?case by (simp add: file_lines_Nil)
next
  case (Cons s st)
  then have "well_formed s" by simp
  from saveAll_line_body[OF this] obtain b where
    b: "saveAll_line s = b @ [CHR 0x0A]" "CHR 0x0A \<notin> set b" "length b < 1023"
    by blast
  have "file_lines (b @ CHR 0x0A # concat (map saveAll_line st)) =
      (b @ [CHR 0x0A]) # file_lines (concat (map saveAll_line st))"
    using b(2,3) by (rule file_lines_line)
  then show ?case using Cons b(1) by simp
qed

lemma file_lines_saveAll_text:
  assumes "list_all well_formed st"
  shows "file_lines (saveAll_text st) =
     (''roll,name,subjectCount,marks,average,grade'' @ [CHR 0x0A]) # map saveAll_line st"
proof -
  have "file_lines (''roll,name,subjectCount,marks,average,grade'' @ CHR 0x0A #
          concat (map saveAll_line st)) =
      (''roll,name,subjectCount,marks,average,grade'' @ [CHR 0x0A]) #
      file_lines (concat (map saveAll_line st))"
    by (rule file_lines_line) simp_all
  then show ?thesis
    using file_lines_saveAll_lines[OF assms] by (simp add: saveAll_text_def)
qed

section \<open>Save and load\<close>

text \<open>
  The file does not hold a store field for field: \<^verbatim>\<open>saveAll\<close> writes the average with
  \<^verbatim>\<open>%.2f\<close>, as the format comment of the program shows
  (\<^verbatim>\<open>1, Alice Johnson, 3, 85;90;78, 84.33, B\<close>). Two well-formed stores whose only
  records differ in the average, 11053739 / 131072 (the \<^verbatim>\<open>float\<close> quotient 253 / 3) and
  5526651 / 65536 (the \<^verbatim>\<open>float\<close> nearest to 84.33), are written as the same text, so
  no reading of that text gives both stores back.
\<close>

theorem saveAll_text_drops_average_digits:
  "list_all well_formed (students third_world) \<and>
   list_all well_formed (students cents_world) \<and>
   average alice_third = 11053739 / 131072 \<and>
   average alice_cents = 5526651 / 65536 \<and>
   students third_world \<noteq> students cents_world \<and>
   disk (saveAll third_world) =
     Some (''roll,name,subjectCount,marks,average,grade'' @ [CHR 0x0A] @
           ''1,Alice,3,85;90;78,84.33,B'' @ [CHR 0x0A]) \<and>
   disk (saveAll cents_world) = disk (saveAll third_world) \<and>
   (\<forall>atof. \<not> (students (loadAll atof (saveAll third_world)) = students third_world \<and>
              students (loadAll atof (saveAll cents_world)) = students cents_world))"
proof -
  have wf: "list_all well_formed (students third_world)"
      "list_all well_formed (students cents_world)"
    by code_simp+
  have av: "average alice_third = 11053739 / 131072" "average alice_cents = 5526651 / 65536"
    by code_simp+
  then have ne: "students third_world \<noteq> students cents_world"
    by (auto simp: third_world_def cents_world_def)
  have t: "saveAll_text [alice_third] =
      ''roll,name,subjectCount,marks,average,grade'' @ [CHR 0x0A] @
      ''1,Alice,3,85;90;78,84.33,B'' @ [CHR 0x0A]"
    by code_simp
  have c: "saveAll_text [alice_cents] =
      ''roll,name,subjectCount,marks,average,grade'' @ [CHR 0x0A] @
      ''1,Alice,3,85;90;78,84.33,B'' @ [CHR 0x0A]"
    by code_simp
  have dt: "disk (saveAll third_world) =
     Some (''roll,name,subjectCount,marks,average,grade'' @ [CHR 0x0A] @
           ''1,Alice,3,85;90;78,84.33,B'' @ [CHR 0x0A])"
    using t by (simp add: saveAll_def third_world_def)
  have dc: "disk (saveAll cents_world) = disk (saveAll third_world)"
    using t c by (simp add: saveAll_def third_world_def cents_world_def)
  have "students (loadAll atof (saveAll third_world)) = []" for atof
    using dt by (simp add: loadAll_students)
  then have "students (loadAll atof (saveAll third_world)) \<noteq> students third_world" for atof
    by (simp add: third_world_def)
  with wf av ne dt dc show ?thesis by blast
qed

text \<open>
  C2. What \<^verbatim>\<open>saveAll\<close> writes for a store of well-formed records: the header line, then
  one line for each record in the order of the store. The six fields between the commas
  of a record's line read back to the record: the first to its roll and the third to its
  subject count by \<^verbatim>\<open>atoi\<close>, the second is its name, the texts between the semicolons
  of the fourth read by \<^verbatim>\<open>atoi\<close> to its scores, and the sixth is its grade. The
  fifth field is the average to two decimals (\<^verbatim>\<open>%.2f\<close>), not the average itself.
\<close>

theorem saveAll_writes_fields:
  assumes "list_all well_formed st"
  shows "file_lines (saveAll_text st) =
           (''roll,name,subjectCount,marks,average,grade'' @ [CHR 0x0A]) # map saveAll_line st \<and>
         (\<forall>s \<in> set st.
            well_formed_line (saveAll_line s) \<and>
            length (line_fields (saveAll_line s)) = 6 \<and>
            atoi (line_fields (saveAll_line s) ! 0) = roll s \<and>
            line_fields (saveAll_line s) ! 1 = name s \<and>
            atoi (line_fields (saveAll_line s) ! 2) = subjectCount s \<and>
            map atoi (split_on (CHR '';'') (line_fields (saveAll_line s) ! 3)) = scores s \<and>
            line_fields (saveAll_line s) ! 4 = show_2f (average s) \<and>
            line_fields (saveAll_line s) ! 5 = [grade s])"
proof -
  have "well_formed_line (saveAll_line s) \<and>
        length (line_fields (saveAll_line s)) = 6 \<and>
        atoi (line_fields (saveAll_line s) ! 0) = roll s \<and>
        line_fields (saveAll_line s) ! 1 = name s \<and>
        atoi (line_fields (saveAll_line s) ! 2) = subjectCount s \<and>
        map atoi (split_on (CHR '';'') (line_fields (saveAll_line s) ! 3)) = scores s \<and>
        line_fields (saveAll_line s) ! 4 = show_2f (average s) \<and>
        line_fields (saveAll_line s) ! 5 = [grade s]"
    if "s \<in> set st" for s
  proof -
    have wf: "well_formed s" using assms that by (simp add: list_all_iff)
    then have vs: "valid_scores s" by (simp add: well_formed_def)
    have len: "length (scores s) = nat (subjectCount s)"
      using vs by (auto simp: valid_scores_def scores_def MAX_SUBJECTS_def)
    have sc: "1 \<le> subjectCount s" "subjectCount s \<le> MAX_SUBJECTS"
      using vs by (simp_all add: valid_scores_def)
    show ?thesis
      using sc len
      by (simp add: well_formed_line_def Let_def saveAll_line_fields[OF wf] atoi_show_int
          saveAll_marks_scores[OF vs] comp_def)
  qed
  then show ?thesis using file_lines_saveAll_text[OF assms] by blast
qed

theorem saveAll_writes_fields_witness:
  "list_all well_formed [alice_third] \<and>
   file_lines (saveAll_text [alice_third]) =
     [''roll,name,subjectCount,marks,average,grade'' @ [CHR 0x0A],
      ''1,Alice,3,85;90;78,84.33,B'' @ [CHR 0x0A]] \<and>
   well_formed_line (''1,Alice,3,85;90;78,84.33,B'' @ [CHR 0x0A]) \<and>
   line_fields (''1,Alice,3,85;90;78,84.33,B'' @ [CHR 0x0A]) =
     [''1'', ''Alice'', ''3'', ''85;90;78'', ''84.33'', ''B''] \<and>
   atoi ''1'' = roll alice_third \<and> ''Alice'' = name alice_third \<and>
   atoi ''3'' = subjectCount alice_third \<and>
   map atoi (split_on (CHR '';'') ''85;90;78'') = scores alice_third \<and>
   ''84.33'' = show_2f (average alice_third) \<and> ''B'' = [grade alice_third]"
proof -
  have wf: "list_all well_formed [alice_third]"
    by code_simp
  have line: "saveAll_line alice_third = ''1,Alice,3,85;90;78,84.33,B'' @ [CHR 0x0A]"
    by code_simp
  have lf: "line_fields (saveAll_line alice_third) =
      [''1'', ''Alice'', ''3'', ''85;90;78'', ''84.33'', ''B'']"
    by code_simp
  from saveAll_writes_fields[OF wf]
  have "file_lines (saveAll_text [alice_third]) =
      [''roll,name,subjectCount,marks,average,grade'' @ [CHR 0x0A], saveAll_line alice_third] \<and>
    well_formed_line (saveAll_line alice_third) \<and>
    atoi ''1'' = roll alice_third \<and> ''Alice'' = name alice_third \<and>
    atoi ''3'' = subjectCount alice_third \<and>
    map atoi (split_on (CHR '';'') ''85;90;78'') = scores alice_third \<and>
    ''84.33'' = show_2f (average alice_third) \<and> ''B'' = [grade alice_third]"
    by (simp add: lf)
  with wf lf have "list_all well_formed [alice_third] \<and>
   file_lines (saveAll_text [alice_third]) =
     [''roll,name,subjectCount,marks,average,grade'' @ [CHR 0x0A], saveAll_line alice_third] \<and>
   well_formed_line (saveAll_line alice_third) \<and>
   line_fields (saveAll_line alice_third) =
     [''1'', ''Alice'', ''3'', ''85;90;78'', ''84.33'', ''B''] \<and>
   atoi ''1'' = roll alice_third \<and> ''Alice'' = name alice_third \<and>
   atoi ''3'' = subjectCount alice_third \<and>
   map atoi (split_on (CHR '';'') ''85;90;78'') = scores alice_third \<and>
   ''84.33'' = show_2f (average alice_third) \<and> ''B'' = [grade alice_third]"
    by blast
  then show ?thesis unfolding line .
qed

text \<open>
  C5. \<^verbatim>\<open>loadAll\<close> stores no record from any line, whether the line parses or not. It
  splits the scores with \<^verbatim>\<open>strtok(tmp, ";")\<close> between the calls \<^verbatim>\<open>strtok(NULL, ",")\<close>
  that walk the line; \<^verbatim>\<open>strtok\<close> has one static pointer, so the calls for the average
  and the grade go on in \<^verbatim>\<open>tmp\<close>, which holds no comma: at most the first of them finds
  a token, and the line is passed over by \<^verbatim>\<open>continue\<close>. The file that \<^verbatim>\<open>saveAll\<close> writes for the
  store of one record \<open>asha\<close> has the line \<^verbatim>\<open>1,Asha,1,90,90.00,A\<close>, which parses, and
  loading it leaves the store empty; so does loading a file of lines that fail to parse.
\<close>

theorem loadAll_skips_well_formed_lines:
  "loadAll_line atof line = None \<and>
   disk (saveAll asha_world) =
     Some (''roll,name,subjectCount,marks,average,grade'' @ [CHR 0x0A] @
           ''1,Asha,1,90,90.00,A'' @ [CHR 0x0A]) \<and>
   well_formed_line (''1,Asha,1,90,90.00,A'' @ [CHR 0x0A]) \<and>
   line_fields (''1,Asha,1,90,90.00,A'' @ [CHR 0x0A]) =
     [''1'', ''Asha'', ''1'', ''90'', ''90.00'', ''A''] \<and>
   students (loadAll atof (saveAll asha_world)) = [] \<and>
   \<not> well_formed_line (''2,Bob,3,40;45'' @ [CHR 0x0A]) \<and>
   students (loadAll atof torn_world) = []"
proof -
  have "saveAll_text [asha] =
      ''roll,name,subjectCount,marks,average,grade'' @ [CHR 0x0A] @
      ''1,Asha,1,90,90.00,A'' @ [CHR 0x0A]"
    by code_simp
  then have d: "disk (saveAll asha_world) =
     Some (''roll,name,subjectCount,marks,average,grade'' @ [CHR 0x0A] @
           ''1,Asha,1,90,90.00,A'' @ [CHR 0x0A])"
    by (simp add: saveAll_def asha_world_def)
  then have l: "students (loadAll atof (saveAll asha_world)) = []"
    by (simp add: loadAll_students)
  have w: "well_formed_line (''1,Asha,1,90,90.00,A'' @ [CHR 0x0A])"
    by code_simp
  have f: "line_fields (''1,Asha,1,90,90.00,A'' @ [CHR 0x0A]) =
      [''1'', ''Asha'', ''1'', ''90'', ''90.00'', ''A'']"
    by code_simp
  have m: "\<not> well_formed_line (''2,Bob,3,40;45'' @ [CHR 0x0A])"
    by code_simp
  have t: "students (loadAll atof torn_world) = []"
    by (simp add: loadAll_students torn_world_def torn_file_def)
  from loadAll_line_None d w f l m t show ?thesis by blast
qed

section \<open>Adding, deleting and updating\<close>

lemma students_saveAll [simp]: "students (saveAll w) = students w"
  by (simp add: saveAll_def)

lemma recompute_fields [simp]:
  "roll (recompute s) = roll s" "name (recompute s) = name s"
  "subjectCount (recompute s) = subjectCount s" "marks (recompute s) = marks s"
  by (simp_all add: recompute_def Let_def)

lemma scores_recompute [simp]: "scores (recompute s) = scores s"
  by (simp add: scores_def)

lemma findMaxRoll_loop_bounds:
  "m \<le> findMaxRoll_loop st m \<and> (\<forall>s\<in>set st. roll s \<le> findMaxRoll_loop st m) \<and>
   findMaxRoll_loop st m \<in> insert m (roll ` set st)"
proof (induction st arbitrary: m)
  case Nil
  then show ?case by simp
next
  case (Cons s ss)
  from Cons.IH[of "if m < roll s then roll s else m"] show ?case
    by (auto split: if_splits)
qed

lemma findMaxRoll_Max: "findMaxRoll w = Max (insert 0 (roll ` set (students w)))"
proof -
  let ?A = "insert 0 (roll ` set (students w))"
  have "Max ?A = findMaxRoll_loop (students w) 0"
    using findMaxRoll_loop_bounds[of 0 "students w"]
    by (intro Max_eqI) auto
  then show ?thesis by (simp add: findMaxRoll_def)
qed

lemma c_int_Some: "c_int v = Some r \<Longrightarrow> r = v \<and> INT_MIN \<le> v \<and> v \<le> INT_MAX"
  by (auto simp: c_int_def split: if_splits)

lemma addStudent_Done:
  assumes "addStudent w line inp = (Done, w')"
  shows "\<exists>n ms inp1 inp2.
      studentCount w < MAX_STUDENTS \<and> findMaxRoll w + 1 \<le> INT_MAX \<and>
      safeGets 256 line \<noteq> [] \<and>
      inputIntInRange 1 MAX_SUBJECTS inp = Some (n, inp1) \<and>
      input_marks n 0 (replicate (nat MAX_SUBJECTS) 0) inp1 = Some (ms, inp2) \<and>
      w' = saveAll (w\<lparr>students := students w @
             [recompute \<lparr>roll = findMaxRoll w + 1,
                         name = take (MAX_NAME - 1) (sanitizeName (safeGets 256 line)),
                         subjectCount = n, marks = ms, average = 0, grade = NUL\<rparr>]\<rparr>)"
  using assms unfolding addStudent_def Let_def
  by (auto split: if_splits option.splits prod.splits dest!: c_int_Some)

lemma addStudent_roll:
  assumes "addStudent w line inp = (Done, w')"
  shows "students w' = students w @ [last (students w')]"
    and "roll (last (students w')) = findMaxRoll w + 1"
  using addStudent_Done[OF assms] by auto

lemma addStudent_roll_Max:
  assumes "addStudent w line inp = (Done, w')"
  shows "roll (last (students w')) = 1 + Max (insert 0 (roll ` set (students w)))"
    and "\<forall>s\<in>set (students w). roll s < roll (last (students w'))"
proof -
  let ?R = "roll ` set (students w)"
  show r: "roll (last (students w')) = 1 + Max (insert 0 ?R)"
    using addStudent_roll(2)[OF assms] by (simp add: findMaxRoll_Max)
  have le: "roll s \<le> Max (insert 0 ?R)" if "s \<in> set (students w)" for s
    using that by (intro Max_ge) auto
  have "roll s < 1 + Max (insert 0 ?R)" if "s \<in> set (students w)" for s
    using le[OF that] by linarith
  then show "\<forall>s\<in>set (students w). roll s < roll (last (students w'))"
    unfolding r by blast
qed

lemma run_values:
  "addStudent empty_world ''Ann'' [1, 50] = (Done, run1)"
  "addStudent run1 ''Ben'' [2, 60, 61] = (Done, run2)"
  "deleteStudent run2 [2] (CHR ''y'') = (Done, run3)"
  "addStudent run3 ''Cy'' [1, 70] = (Done, run4)"
  "map roll (students run1) = [1]"
  "map roll (students run2) = [1, 2]" "map name (students run2) = [''Ann'', ''Ben'']"
  "map roll (students run3) = [1]" "map name (students run3) = [''Ann'']"
  "map roll (students run4) = [1, 2]" "map name (students run4) = [''Ann'', ''Cy'']"
  by code_simp+

text \<open>
  C3. An add that succeeds appends one record, and its roll is one more than the greatest
  roll in the store, the greatest being taken as 0 when the store is empty (the scan of
  \<^verbatim>\<open>findMaxRoll\<close> starts from 0). This roll is the roll of no record of the store. With
  rolls positive, as the data model has them, the greatest is the maximum of the rolls of
  the records, whatever was deleted before.
\<close>

theorem addStudent_next_roll:
  "addStudent w line inp = (Done, w') \<Longrightarrow>
     students w' = students w @ [last (students w')] \<and>
     roll (last (students w')) = 1 + Max (insert 0 (roll ` set (students w))) \<and>
     roll (last (students w')) \<notin> roll ` set (students w) \<and>
     (students w = [] \<longrightarrow> roll (last (students w')) = 1) \<and>
     (students w \<noteq> [] \<and> list_all (\<lambda>s. 0 < roll s) (students w) \<longrightarrow>
        roll (last (students w')) = 1 + Max (roll ` set (students w)))"
proof -
  assume a: "addStudent w line inp = (Done, w')"
  let ?R = "roll ` set (students w)"
  have r: "roll (last (students w')) = 1 + Max (insert 0 ?R)"
    using a by (rule addStudent_roll_Max(1))
  have fresh: "roll (last (students w')) \<notin> ?R"
    using addStudent_roll_Max(2)[OF a] by fastforce
  have pos: "Max (insert 0 ?R) = Max ?R"
    if ne: "students w \<noteq> []" and al: "list_all (\<lambda>s. 0 < roll s) (students w)"
  proof -
    have "?R \<noteq> {}" "finite ?R" using ne by auto
    moreover have "0 \<le> Max ?R"
    proof -
      obtain s where "s \<in> set (students w)" using ne by (cases "students w") auto
      then have "0 < roll s" "roll s \<le> Max ?R"
        using al by (auto simp: list_all_iff)
      then show ?thesis by simp
    qed
    ultimately show ?thesis by (simp add: max_def)
  qed
  show ?thesis
    using addStudent_roll(1)[OF a] r fresh pos by auto
qed

theorem addStudent_next_roll_witness:
  "addStudent run1 ''Ben'' [2, 60, 61] = (Done, run2) \<and>
   map roll (students run1) = [1] \<and> list_all (\<lambda>s. 0 < roll s) (students run1) \<and>
   roll (last (students run2)) = 2"
proof -
  have a: "addStudent run1 ''Ben'' [2, 60, 61] = (Done, run2)"
    by (rule run_values)
  have r: "map roll (students run1) = [1]"
    by (rule run_values)
  then have s: "roll ` set (students run1) = {1}"
    by (metis list.simps(15) list.set(1) set_map)
  have "roll x = 1" if "x \<in> set (students run1)" for x
  proof -
    from that have "roll x \<in> roll ` set (students run1)" by (rule imageI)
    then show ?thesis unfolding s by simp
  qed
  then have p: "list_all (\<lambda>s. 0 < roll s) (students run1)"
    by (simp add: list_all_iff)
  have "roll (last (students run2)) = 1 + Max (insert 0 (roll ` set (students run1)))"
    using addStudent_next_roll[OF a] by simp
  then show ?thesis using a r p by (simp add: s)
qed

text \<open>
  C8. A roll that was given to a record and deleted afterwards can be given again: in the
  run below roll 2 is Ben's, Ben is deleted, and Cy, added next, gets roll 2.
\<close>

theorem deleted_roll_reused:
  "addStudent run1 ''Ben'' [2, 60, 61] = (Done, run2) \<and>
   map roll (students run2) = [1, 2] \<and> map name (students run2) = [''Ann'', ''Ben''] \<and>
   deleteStudent run2 [2] (CHR ''y'') = (Done, run3) \<and>
   map roll (students run3) = [1] \<and> map name (students run3) = [''Ann''] \<and>
   addStudent run3 ''Cy'' [1, 70] = (Done, run4) \<and>
   map roll (students run4) = [1, 2] \<and> map name (students run4) = [''Ann'', ''Cy'']"
  by (simp add: run_values)

text \<open>
  C8, as the code has it. The roll of a new record is above the roll of every live
  record, so a roll deleted before is not given again while a record with this roll or
  a greater one is live; it is given again by the add at which it is one more than the
  greatest live roll (than 0, when the store is empty), and by no other.
\<close>

theorem addStudent_roll_above_live:
  "addStudent w line inp = (Done, w') \<Longrightarrow>
     (\<forall>s\<in>set (students w). roll s < roll (last (students w'))) \<and>
     (roll (last (students w')) = r \<longleftrightarrow> r = 1 + Max (insert 0 (roll ` set (students w))))"
proof -
  assume a: "addStudent w line inp = (Done, w')"
  have "roll (last (students w')) = 1 + Max (insert 0 (roll ` set (students w)))"
    using a by (rule addStudent_roll_Max(1))
  then have "roll (last (students w')) = r \<longleftrightarrow> r = 1 + Max (insert 0 (roll ` set (students w)))"
    by auto
  then show ?thesis
    using addStudent_roll_Max(2)[OF a] by blast
qed

theorem addStudent_roll_above_live_witness:
  "addStudent run3 ''Cy'' [1, 70] = (Done, run4) \<and> map roll (students run3) = [1] \<and>
   roll (last (students run4)) = 2 \<and> 1 + Max (insert 0 (roll ` set (students run3))) = 2"
proof -
  have a: "addStudent run3 ''Cy'' [1, 70] = (Done, run4)"
    by (rule run_values)
  have r: "map roll (students run3) = [1]"
    by (rule run_values)
  then have s: "roll ` set (students run3) = {1}"
    by (metis list.simps(15) list.set(1) set_map)
  have m: "1 + Max (insert 0 (roll ` set (students run3))) = 2"
    by (simp add: s)
  then have "roll (last (students run4)) = 2"
    using addStudent_roll_above_live[OF a, of 2] by simp
  then show ?thesis using a r m by simp
qed

lemma findIndexByRoll_loop_miss:
  "r \<notin> roll ` set st \<Longrightarrow> findIndexByRoll_loop st r i = - 1"
  by (induction st arbitrary: i) auto

lemma findIndexByRoll_loop_hit:
  "r \<in> roll ` set st \<Longrightarrow>
     i \<le> findIndexByRoll_loop st r i \<and> findIndexByRoll_loop st r i < i + int (length st) \<and>
     roll (st ! nat (findIndexByRoll_loop st r i - i)) = r"
proof (induction st arbitrary: i)
  case Nil
  then show ?case by simp
next
  case (Cons s ss)
  show ?case
  proof (cases "roll s = r")
    case True
    then show ?thesis by simp
  next
    case False
    with Cons.prems have "r \<in> roll ` set ss" by auto
    from Cons.IH[OF this, of "i + 1"]
    have ih: "i + 1 \<le> findIndexByRoll_loop ss r (i + 1)"
      "findIndexByRoll_loop ss r (i + 1) < i + 1 + int (length ss)"
      "roll (ss ! nat (findIndexByRoll_loop ss r (i + 1) - (i + 1))) = r"
      by simp_all
    define k where "k = findIndexByRoll_loop ss r (i + 1)"
    have "nat (k - i) = Suc (nat (k - (i + 1)))" using ih(1) by (simp add: k_def)
    then show ?thesis using False ih by (simp add: k_def[symmetric])
  qed
qed

lemma findIndexByRoll_miss: "r \<notin> roll ` set (students w) \<Longrightarrow> findIndexByRoll w r = - 1"
  by (simp add: findIndexByRoll_def findIndexByRoll_loop_miss)

lemma findIndexByRoll_hit:
  assumes "0 \<le> findIndexByRoll w r"
  shows "nat (findIndexByRoll w r) < length (students w)"
    and "roll (students w ! nat (findIndexByRoll w r)) = r"
proof -
  have "r \<in> roll ` set (students w)"
    using assms findIndexByRoll_miss[of r w] by fastforce
  from findIndexByRoll_loop_hit[OF this, of 0]
  show "nat (findIndexByRoll w r) < length (students w)"
    and "roll (students w ! nat (findIndexByRoll w r)) = r"
    by (auto simp: findIndexByRoll_def)
qed

text \<open>
  C6. On the empty store \<^verbatim>\<open>deleteStudent\<close> does not come to the search: it prints
  \<^verbatim>\<open>No records.\<close> and returns before it reads a roll.
\<close>

theorem deleteStudent_empty_store:
  "students empty_world = [] \<and> 5 \<notin> roll ` set (students empty_world) \<and>
   deleteStudent empty_world [5] (CHR ''y'') = (NoRecords, empty_world)"
  by (simp add: deleteStudent_def studentCount_def empty_world_def)

text \<open>
  C6, as the code has it. When the roll read is the roll of no record, the store, the
  file and every record are left as they were, whatever is typed afterwards; the call ends
  with \<open>NotFound\<close> when the store holds a record, and with \<open>NoRecords\<close> when it is empty.
\<close>

theorem deleteStudent_unknown_roll:
  "inputIntInRange 1 1000000000 inp = Some (r, inp1) \<Longrightarrow> r \<notin> roll ` set (students w) \<Longrightarrow>
     deleteStudent w inp c = (if students w = [] then NoRecords else NotFound, w)"
proof -
  assume i: "inputIntInRange 1 1000000000 inp = Some (r, inp1)"
    and r: "r \<notin> roll ` set (students w)"
  have "findIndexByRoll w r = - 1"
    using r by (rule findIndexByRoll_miss)
  then show ?thesis
    using i by (simp add: deleteStudent_def studentCount_def)
qed

theorem deleteStudent_unknown_roll_witness:
  "inputIntInRange 1 1000000000 [0, 5] = Some (5, []) \<and> map roll (students run2) = [1, 2] \<and>
   deleteStudent run2 [0, 5] (CHR ''y'') = (NotFound, run2)"
proof -
  have i: "inputIntInRange 1 1000000000 [0, 5] = Some (5, [])"
    by simp
  have r: "map roll (students run2) = [1, 2]"
    by (rule run_values)
  then have s: "roll ` set (students run2) = {1, 2}"
    by (metis list.simps(15) list.set(1) set_map)
  then have n: "5 \<notin> roll ` set (students run2)" and ne: "students run2 \<noteq> []"
    by auto
  show ?thesis
    using deleteStudent_unknown_roll[OF i n, of "CHR ''y''"] i r ne by simp
qed

lemma inputIntInRange_Some:
  "inputIntInRange lo hi inp = Some (v, inp') \<Longrightarrow> lo \<le> v \<and> v \<le> hi"
  by (induction inp) (auto split: if_splits)

lemma input_marks_range:
  "input_marks n i ms inp = Some (ms', inp') \<Longrightarrow> 0 \<le> i \<Longrightarrow>
     length ms' = length ms \<and>
     (\<forall>j. nat i \<le> j \<and> j < nat n \<and> j < length ms \<longrightarrow> 0 \<le> ms' ! j \<and> ms' ! j \<le> 100) \<and>
     (\<forall>j < nat i. ms' ! j = ms ! j)"
proof (induction n i ms inp rule: input_marks.induct)
  case (1 n i ms inp)
  show ?case
  proof (cases "i < n")
    case False
    then have "\<not> (nat i \<le> j \<and> j < nat n)" for j using "1.prems"(2) by auto
    moreover have "ms' = ms"
      using False "1.prems"(1) by (simp add: input_marks.simps[of n i])
    ultimately show ?thesis by blast
  next
    case True
    then obtain v inp1 where v: "inputIntInRange 0 100 inp = Some (v, inp1)"
      and rec: "input_marks n (i + 1) (ms[nat i := v]) inp1 = Some (ms', inp')"
      using "1.prems"(1) by (auto simp: input_marks.simps[of n i] split: option.splits)
    have vr: "0 \<le> v \<and> v \<le> 100" using v by (rule inputIntInRange_Some)
    from "1.IH"[OF True v refl rec] "1.prems"(2)
    have ih: "length ms' = length ms"
      "\<forall>j. nat (i + 1) \<le> j \<and> j < nat n \<and> j < length ms \<longrightarrow> 0 \<le> ms' ! j \<and> ms' ! j \<le> 100"
      "\<forall>j < nat (i + 1). ms' ! j = ms[nat i := v] ! j"
      by simp_all
    have "0 \<le> ms' ! j \<and> ms' ! j \<le> 100" if "nat i \<le> j" "j < nat n" "j < length ms" for j
    proof (cases "j = nat i")
      case True
      then have "ms' ! j = ms[nat i := v] ! j" using ih(3) "1.prems"(2) by (simp add: nat_add_distrib)
      then show ?thesis using vr that True by simp
    next
      case False
      then have "nat (i + 1) \<le> j" using that(1) "1.prems"(2) by (simp add: nat_add_distrib)
      then show ?thesis using ih(2) that by simp
    qed
    moreover have "ms' ! j = ms ! j" if "j < nat i" for j
    proof -
      have "ms' ! j = ms[nat i := v] ! j" using ih(3) that "1.prems"(2) by (simp add: nat_add_distrib)
      then show ?thesis using that by simp
    qed
    ultimately show ?thesis using ih(1) by blast
  qed
qed

lemma recompute_loop_derived:
  "recompute_loop (s\<lparr>average := a, grade := g\<rparr>) i acc = recompute_loop s i acc"
proof (induction s i acc rule: recompute_loop.induct)
  case (1 s i acc)
  then show ?case
    by (subst recompute_loop.simps, subst (2) recompute_loop.simps) simp
qed

lemma recompute_idem: "recompute (recompute s) = recompute s"
  by (simp add: recompute_def Let_def recompute_loop_derived)

lemma scores_derived [simp]: "scores (s\<lparr>average := a, grade := g\<rparr>) = scores s"
  by (simp add: scores_def)

lemma valid_scores_derived:
  "valid_scores (s\<lparr>name := nm\<rparr>) = valid_scores s"
  "valid_scores (recompute s) = valid_scores s"
  by (simp_all add: valid_scores_def scores_def)


lemma updateStudent_Done:
  assumes "updateStudent w inp line = (Done, w')"
    and "inputIntInRange 1 1000000000 inp = Some (r, inp1)"
    and "inputIntInRange 1 3 inp1 = Some (ch, inp2)"
  defines "i \<equiv> nat (findIndexByRoll w r)"
  defines "s \<equiv> students w ! i"
  shows "0 \<le> findIndexByRoll w r \<and>
     ((ch = 1 \<and> safeGets 256 line \<noteq> [] \<and>
       students w' =
         (students w)[i := recompute (s\<lparr>name := take (MAX_NAME - 1) (sanitizeName (safeGets 256 line))\<rparr>)]) \<or>
      (ch = 2 \<and> (\<exists>n inp3 ms inp4.
         inputIntInRange 1 MAX_SUBJECTS inp2 = Some (n, inp3) \<and>
         input_marks n 0 (marks s) inp3 = Some (ms, inp4) \<and>
         students w' = (students w)[i := recompute (s\<lparr>subjectCount := n, marks := ms\<rparr>)])))"
  using assms(1)
  by (auto simp: updateStudent_def Let_def assms(2,3) i_def s_def recompute_idem
      split: if_splits option.splits prod.splits)

text \<open>
  C10. An update that succeeds ends with \<^verbatim>\<open>recompute\<close> on the record, also when only
  the name was changed (choice 1). Whatever average and grade the record held, afterwards
  its average is the quotient of the sum of its scores by their number in single
  precision (the mean rounded, as in C1) and its grade is that of the table for the mean.
  Choice 1 leaves the scores as they were; no other record changes.
\<close>

theorem updateStudent_recomputes:
  assumes "updateStudent w inp line = (Done, w')"
    and "inputIntInRange 1 1000000000 inp = Some (r, inp1)"
    and "inputIntInRange 1 3 inp1 = Some (ch, inp2)"
    and "valid_scores (students w ! nat (findIndexByRoll w r))"
  shows "let i = nat (findIndexByRoll w r); s = students w ! i; s' = students w' ! i in
     i < length (students w) \<and> roll s = r \<and>
     students w' = (students w)[i := s'] \<and> roll s' = r \<and>
     valid_scores s' \<and>
     average s' = fl32 (mean (scores s')) \<and>
     grade s' = deriveGrade (mean (scores s')) \<and>
     (ch = 1 \<longrightarrow>
        scores s' = scores s \<and> name s' = take 99 (sanitizeName (safeGets 256 line)))"
proof -
  define i where "i = nat (findIndexByRoll w r)"
  define s where "s = students w ! i"
  define s' where "s' = students w' ! i"
  note d = updateStudent_Done[OF assms(1-3), folded i_def, folded s_def]
  have found: "0 \<le> findIndexByRoll w r" using d by simp
  have i: "i < length (students w)" and rs: "roll s = r"
    using findIndexByRoll_hit[OF found] by (simp_all add: i_def s_def)
  have vs: "valid_scores s" using assms(4) by (simp add: i_def s_def)
  obtain t where t: "students w' = (students w)[i := recompute t]" "valid_scores t" "roll t = r"
    and nm: "ch = 1 \<longrightarrow> scores t = scores s \<and> name t = take 99 (sanitizeName (safeGets 256 line))"
  proof -
    consider (name) "ch = 1"
        "students w' = (students w)[i := recompute (s\<lparr>name := take (MAX_NAME - 1) (sanitizeName (safeGets 256 line))\<rparr>)]"
      | (marks) n inp3 ms inp4 where "ch = 2"
        "inputIntInRange 1 MAX_SUBJECTS inp2 = Some (n, inp3)"
        "input_marks n 0 (marks s) inp3 = Some (ms, inp4)"
        "students w' = (students w)[i := recompute (s\<lparr>subjectCount := n, marks := ms\<rparr>)]"
      using d by blast
    then show ?thesis
    proof cases
      case name
      show ?thesis
        by (rule that[of "s\<lparr>name := take (MAX_NAME - 1) (sanitizeName (safeGets 256 line))\<rparr>"])
          (use name vs rs in \<open>simp_all add: valid_scores_derived scores_def MAX_NAME_def\<close>)
    next
      case marks
      have n: "1 \<le> n \<and> n \<le> MAX_SUBJECTS" using marks(2) by (rule inputIntInRange_Some)
      have len: "length (marks s) = nat MAX_SUBJECTS" using vs by (simp add: valid_scores_def)
      from input_marks_range[OF marks(3)]
      have ms: "length ms = length (marks s)"
        "\<forall>j. j < nat n \<and> j < length (marks s) \<longrightarrow> 0 \<le> ms ! j \<and> ms ! j \<le> 100"
        by simp_all
      have "list_all (\<lambda>m. 0 \<le> m \<and> m \<le> 100) (take (nat n) ms)"
        using ms n len by (auto simp: list_all_length)
      then have "valid_scores (s\<lparr>subjectCount := n, marks := ms\<rparr>)"
        using n ms(1) len by (simp add: valid_scores_def scores_def)
      then show ?thesis
        by (intro that[of "s\<lparr>subjectCount := n, marks := ms\<rparr>"])
          (use marks rs in simp_all)
    qed
  qed
  have s': "s' = recompute t" using t(1) i by (simp add: s'_def)
  from recompute_valid[OF t(2)]
  have "average s' = fl32 (mean (scores s'))" "grade s' = deriveGrade (mean (scores s'))"
    unfolding s' by simp_all
  moreover have "valid_scores s'" using t(2) by (simp add: s' valid_scores_derived)
  moreover have "students w' = (students w)[i := s']" using t(1) by (simp add: s')
  ultimately show ?thesis
    unfolding Let_def i_def[symmetric] s_def[symmetric] s'_def[symmetric]
    using i rs nm t(3) by (simp add: s')
qed

theorem updateStudent_recomputes_witness:
  "updateStudent stale_world [1, 1] ''Alicia'' =
     (Done, \<lparr>students = [alice\<lparr>name := ''Alicia'', average := 11053739 / 131072, grade := CHR ''B''\<rparr>],
             disk = Some (''roll,name,subjectCount,marks,average,grade'' @ [CHR 0x0A] @
                          ''1,Alicia,3,85;90;78,84.33,B'' @ [CHR 0x0A]),
             writable = True\<rparr>) \<and>
   valid_scores alice \<and> average alice = 0 \<and> grade alice = NUL \<and>
   fl32 (mean (scores alice)) = 11053739 / 131072 \<and> deriveGrade (mean (scores alice)) = CHR ''B''"
proof -
  define w' where "w' = \<lparr>students = [alice\<lparr>name := ''Alicia'', average := 11053739 / 131072, grade := CHR ''B''\<rparr>],
             disk = Some (''roll,name,subjectCount,marks,average,grade'' @ [CHR 0x0A] @
                          ''1,Alicia,3,85;90;78,84.33,B'' @ [CHR 0x0A]),
             writable = True\<rparr>"
  have u: "updateStudent stale_world [1, 1] ''Alicia'' = (Done, w')"
    unfolding w'_def by code_simp
  have r: "inputIntInRange 1 1000000000 [1, 1] = Some (1, [1])"
    and c: "inputIntInRange 1 3 [1] = Some (1, [])"
    by simp_all
  have i: "findIndexByRoll stale_world 1 = 0"
    by code_simp
  have v: "valid_scores alice"
    by (simp add: valid_scores_def alice_def MAX_SUBJECTS_def scores_def)
  then have v': "valid_scores (students stale_world ! nat (findIndexByRoll stale_world 1))"
    unfolding i by (simp add: stale_world_def)
  have s: "scores (alice\<lparr>name := ''Alicia'', average := 11053739 / 131072, grade := CHR ''B''\<rparr>) = scores alice"
    by (simp add: scores_def)
  have "11053739 / 131072 = fl32 (mean (scores alice)) \<and> CHR ''B'' = deriveGrade (mean (scores alice))"
    using updateStudent_recomputes[OF u r c v'] unfolding i Let_def
    by (simp add: w'_def scores_def stale_world_def)
  then show ?thesis using u v unfolding w'_def by (simp add: alice_def)
qed

section \<open>Sorting\<close>

lemma mset_cmp_insert: "mset (cmp_insert cmp x ys) = add_mset x (mset ys)"
  by (induction ys) auto

lemma mset_insertion_sort: "mset (insertion_sort cmp xs) = mset xs"
  by (induction xs) (auto simp: mset_cmp_insert)

lemma set_cmp_insert: "set (cmp_insert cmp x ys) = insert x (set ys)"
  by (metis mset_cmp_insert set_mset_add_mset_insert set_mset_mset)

lemma total_ordering_total:
  assumes "total_ordering cmp A" "a \<in> A" "b \<in> A" "\<not> cmp_le cmp a b"
  shows "cmp_le cmp b a"
proof -
  obtain r r' where r: "cmp a b = Some r" "cmp b a = Some r'" "sgn r' = - sgn r"
    using assms(1-3) unfolding total_ordering_def by blast
  then have "0 < r" using assms(4) by (simp add: cmp_le_def)
  then have "r' < 0" using r(3) by (simp add: sgn_if split: if_splits)
  then show ?thesis using r(2) by (simp add: cmp_le_def)
qed

lemma total_ordering_trans:
  assumes "total_ordering cmp A" "a \<in> A" "b \<in> A" "c \<in> A" "cmp_le cmp a b" "cmp_le cmp b c"
  shows "cmp_le cmp a c"
  using assms unfolding total_ordering_def by blast

lemma sorted_cmp_insert:
  assumes "total_ordering cmp A" "x \<in> A"
  shows "set ys \<subseteq> A \<Longrightarrow> sorted_wrt (cmp_le cmp) ys \<Longrightarrow> sorted_wrt (cmp_le cmp) (cmp_insert cmp x ys)"
proof (induction ys)
  case Nil
  then show ?case by simp
next
  case (Cons y ys)
  show ?case
  proof (cases "cmp_le cmp x y")
    case True
    have "cmp_le cmp x z" if "z \<in> set ys" for z
    proof -
      have "cmp_le cmp y z" using Cons.prems(2) that by simp
      with True show ?thesis
        using total_ordering_trans[OF assms(1), of x y z] assms(2) Cons.prems(1) that by auto
    qed
    with True Cons.prems show ?thesis by auto
  next
    case False
    then have "cmp_le cmp y x"
      using total_ordering_total[OF assms(1), of x y] assms(2) Cons.prems(1) by auto
    with False Cons show ?thesis by (auto simp: set_cmp_insert)
  qed
qed

lemma sorted_insertion_sort:
  "total_ordering cmp A \<Longrightarrow> set xs \<subseteq> A \<Longrightarrow> sorted_wrt (cmp_le cmp) (insertion_sort cmp xs)"
proof (induction xs)
  case Nil
  then show ?case by simp
next
  case (Cons x xs)
  have "set (insertion_sort cmp xs) \<subseteq> A"
    using Cons.prems(2) by (metis mset_insertion_sort set_mset_mset set_subset_Cons subset_trans)
  with Cons show ?case by (auto intro: sorted_cmp_insert)
qed

lemma qsort_contract_insertion_sort: "qsort_contract insertion_sort"
  unfolding qsort_contract_def
  by (auto simp: mset_insertion_sort intro: sorted_insertion_sort)

lemma sorted_wrt_unique:
  assumes anti: "\<And>a b. a \<in> set ys \<Longrightarrow> b \<in> set ys \<Longrightarrow> le a b \<Longrightarrow> le b a \<Longrightarrow> a = b"
  shows "sorted_wrt le ys \<Longrightarrow> sorted_wrt le zs \<Longrightarrow> mset ys = mset zs \<Longrightarrow> ys = zs"
  using anti
proof (induction ys arbitrary: zs)
  case Nil
  then show ?case by simp
next
  case (Cons y ys)
  from Cons.prems(3) obtain z zs' where zs: "zs = z # zs'"
    by (cases zs) auto
  have sets: "set (y # ys) = set (z # zs')"
    using Cons.prems(3) zs by (metis set_mset_mset)
  have yz: "y = z"
  proof (rule ccontr)
    assume ne: "y \<noteq> z"
    then have in1: "z \<in> set ys" and in2: "y \<in> set zs'" using sets by auto
    then have "le y z" "le z y" using Cons.prems(1,2) zs by auto
    then have "y = z" using Cons.prems(4)[of y z] in1 by simp
    then show False using ne by simp
  qed
  then have "mset ys = mset zs'" using Cons.prems(3) zs by simp
  moreover have "sorted_wrt le ys" "sorted_wrt le zs'" using Cons.prems(1,2) zs by auto
  ultimately have "ys = zs'" using Cons.IH[of zs'] Cons.prems(4) by auto
  with yz zs show ?case by simp
qed


lemma total_ordering_by_le:
  assumes cmp: "\<And>a b. a \<in> A \<Longrightarrow> b \<in> A \<Longrightarrow>
      \<exists>r. cmp a b = Some r \<and> (r \<le> 0 \<longleftrightarrow> le a b) \<and> (0 \<le> r \<longleftrightarrow> le b a)"
    and trans: "\<And>a b c. le a b \<Longrightarrow> le b c \<Longrightarrow> le a c"
  shows "total_ordering cmp A"
    and "\<And>a b. a \<in> A \<Longrightarrow> b \<in> A \<Longrightarrow> cmp_le cmp a b = le a b"
proof -
  show le: "cmp_le cmp a b = le a b" if "a \<in> A" "b \<in> A" for a b
    using cmp[OF that] by (auto simp: cmp_le_def)
  have "\<exists>r r'. cmp a b = Some r \<and> cmp b a = Some r' \<and> sgn r' = - sgn r"
    if ab: "a \<in> A" "b \<in> A" for a b
  proof -
    obtain r where r: "cmp a b = Some r" "r \<le> 0 \<longleftrightarrow> le a b" "0 \<le> r \<longleftrightarrow> le b a"
      using cmp[OF ab] by blast
    obtain r' where r': "cmp b a = Some r'" "r' \<le> 0 \<longleftrightarrow> le b a" "0 \<le> r' \<longleftrightarrow> le a b"
      using cmp[OF ab(2,1)] by blast
    have "sgn r' = - sgn r"
      using r(2,3) r'(2,3) by (cases "r < 0"; cases "r = 0"; cases "r' < 0"; cases "r' = 0") auto
    with r(1) r'(1) show ?thesis by blast
  qed
  moreover have "cmp_le cmp a c"
    if "a \<in> A" "b \<in> A" "c \<in> A" "cmp_le cmp a b" "cmp_le cmp b c" for a b c
    using that le trans by blast
  ultimately show "total_ordering cmp A"
    unfolding total_ordering_def by blast
qed

lemma uchar_range: "0 \<le> uchar c \<and> uchar c \<le> 255"
proof -
  have "(of_char c :: nat) \<le> 255" using nat_of_char_less_256[of c] by linarith
  then show ?thesis by (simp add: uchar_def)
qed

lemma strcasecmp_loop_range: "- 255 \<le> strcasecmp_loop x y \<and> strcasecmp_loop x y \<le> 255"
proof (induction x y rule: strcasecmp_loop.induct)
  case (2 y ys)
  then show ?case using uchar_range[of "c_tolower y"] by simp
next
  case (3 x xs)
  then show ?case using uchar_range[of "c_tolower x"] by simp
next
  case (4 x xs y ys)
  then show ?case using uchar_range[of "c_tolower x"] uchar_range[of "c_tolower y"] by simp
qed simp

lemma c_tolower_NUL: "c \<noteq> NUL \<Longrightarrow> 0 < uchar (c_tolower c)"
proof -
  assume "c \<noteq> NUL"
  moreover have "(of_char NUL :: nat) = 0" by (simp add: NUL_def)
  ultimately have "(of_char c :: nat) \<noteq> 0"
    by (metis of_char_eq_iff)
  then have "(of_char (c_tolower c) :: nat) \<noteq> 0"
    by (auto simp: c_tolower_def Let_def)
  then show ?thesis by (simp add: uchar_def)
qed

lemma uchar_eq_iff: "uchar a = uchar b \<longleftrightarrow> a = b"
  by (simp add: uchar_def)

lemma strcasecmp_loop_key:
  "NUL \<notin> set x \<Longrightarrow> NUL \<notin> set y \<Longrightarrow>
     (strcasecmp_loop x y < 0 \<longleftrightarrow> map (\<lambda>c. uchar (c_tolower c)) x < map (\<lambda>c. uchar (c_tolower c)) y) \<and>
     (strcasecmp_loop x y = 0 \<longleftrightarrow> map (\<lambda>c. uchar (c_tolower c)) x = map (\<lambda>c. uchar (c_tolower c)) y)"
proof (induction x y rule: strcasecmp_loop.induct)
  case 1
  then show ?case by simp
next
  case (2 y ys)
  then show ?case using c_tolower_NUL[of y] by auto
next
  case (3 x xs)
  then show ?case using c_tolower_NUL[of x] by auto
next
  case (4 x xs y ys)
  then show ?case by (auto simp: uchar_eq_iff)
qed

lemma NUL_cstr: "NUL \<notin> set (cstr b)"
  by (auto simp: cstr_def dest: set_takeWhileD)

lemma strcasecmp_key:
  "(strcasecmp (name a) (name b) \<le> 0 \<longleftrightarrow> name_key a \<le> name_key b) \<and>
   (0 \<le> strcasecmp (name a) (name b) \<longleftrightarrow> name_key b \<le> name_key a)"
proof -
  define s where "s = strcasecmp (name a) (name b)"
  have 1: "s < 0 \<longleftrightarrow> name_key a < name_key b" and 2: "s = 0 \<longleftrightarrow> name_key a = name_key b"
    using strcasecmp_loop_key[OF NUL_cstr NUL_cstr, of "name a" "name b"]
    unfolding strcasecmp_def name_key_def s_def by blast+
  have "s \<le> 0 \<longleftrightarrow> name_key a \<le> name_key b"
    by (simp add: le_less 1 2)
  moreover have "0 \<le> s \<longleftrightarrow> name_key b \<le> name_key a"
    using 1 by (simp flip: not_less)
  ultimately show ?thesis unfolding s_def by blast
qed


lemma c_int_small: "- 2147483647 \<le> v \<Longrightarrow> v \<le> 2147483647 \<Longrightarrow> c_int v = Some v"
  by (simp add: c_int_def INT_MIN_def INT_MAX_def)

lemma cmpRoll_values:
  assumes "roll_ok a" "roll_ok b"
  shows "cmpRollAsc a b = Some (roll a - roll b)" "cmpRollDesc a b = Some (- (roll a - roll b))"
proof -
  have "- 2147483647 \<le> roll a - roll b" "roll a - roll b \<le> 2147483647"
    using assms by (simp_all add: roll_ok_def INT_MAX_def)
  then show "cmpRollAsc a b = Some (roll a - roll b)" "cmpRollDesc a b = Some (- (roll a - roll b))"
    by (simp_all add: cmpRollAsc_def cmpRollDesc_def c_int_small)
qed

lemma cmpName_values:
  "cmpNameAsc a b = Some (strcasecmp (name a) (name b))"
  "cmpNameDesc a b = Some (- strcasecmp (name a) (name b))"
proof -
  have "- 255 \<le> strcasecmp (name a) (name b)" "strcasecmp (name a) (name b) \<le> 255"
    using strcasecmp_loop_range[of "cstr (name a)" "cstr (name b)"] by (simp_all add: strcasecmp_def)
  then show "cmpNameAsc a b = Some (strcasecmp (name a) (name b))"
    "cmpNameDesc a b = Some (- strcasecmp (name a) (name b))"
    by (simp_all add: cmpNameAsc_def cmpNameDesc_def c_int_small)
qed

lemma cmpAvg_values:
  "cmpAvgAsc a b = Some (if average a < average b then - 1 else if average b < average a then 1 else 0)"
  "cmpAvgDesc a b = Some (if average a < average b then 1 else if average b < average a then - 1 else 0)"
  by (simp_all add: cmpAvgAsc_def cmpAvgDesc_def c_int_small)

lemma choice_cases:
  "1 \<le> ch \<Longrightarrow> ch \<le> 6 \<Longrightarrow> ch = 1 \<or> ch = 2 \<or> ch = 3 \<or> ch = 4 \<or> ch = 5 \<or> ch = (6 :: int)"
  by arith

lemma sortMenu_cmp_key:
  assumes "1 \<le> ch" "ch \<le> 6" "roll_ok a" "roll_ok b"
  shows "\<exists>r. sortMenu_cmp ch a b = Some r \<and> (r \<le> 0 \<longleftrightarrow> key_le ch a b) \<and> (0 \<le> r \<longleftrightarrow> key_le ch b a)"
  using choice_cases[OF assms(1,2)]
proof (elim disjE)
  assume "ch = 1"
  then show ?thesis
    by (simp add: sortMenu_cmp_def key_le_def cmpRoll_values[OF assms(3,4)])
next
  assume "ch = 2"
  then show ?thesis
    by (simp add: sortMenu_cmp_def key_le_def cmpRoll_values[OF assms(3,4)])
next
  assume "ch = 3"
  then show ?thesis
    using strcasecmp_key[of a b] by (simp add: sortMenu_cmp_def key_le_def cmpName_values)
next
  assume "ch = 4"
  then show ?thesis
    using strcasecmp_key[of a b] by (simp add: sortMenu_cmp_def key_le_def cmpName_values)
next
  assume "ch = 5"
  then show ?thesis
    by (auto simp: sortMenu_cmp_def key_le_def cmpAvg_values)
next
  assume "ch = 6"
  then show ?thesis
    by (auto simp: sortMenu_cmp_def key_le_def cmpAvg_values)
qed

lemma key_le_trans: "key_le ch a b \<Longrightarrow> key_le ch b c \<Longrightarrow> key_le ch a c"
  by (auto simp: key_le_def split: if_splits)

lemma key_le_counterpart:
  "1 \<le> ch \<Longrightarrow> ch \<le> 6 \<Longrightarrow> key_le (counterpart ch) a b = key_le ch b a"
  using choice_cases[of ch] by (auto simp: key_le_def counterpart_def)

lemma counterpart_range: "1 \<le> ch \<Longrightarrow> ch \<le> 6 \<Longrightarrow> 1 \<le> counterpart ch \<and> counterpart ch \<le> 6"
  using choice_cases[of ch] by (auto simp: counterpart_def)

lemma name_key_eq:
  "name_key a = name_key b \<longleftrightarrow> map c_tolower (cstr (name a)) = map c_tolower (cstr (name b))"
proof -
  have "inj uchar" by (auto simp: inj_on_def uchar_eq_iff)
  then have "inj (map uchar)" by simp
  then have "map uchar x = map uchar y \<longleftrightarrow> x = y" for x y by (simp add: inj_eq)
  from this[of "map c_tolower (cstr (name a))" "map c_tolower (cstr (name b))"]
  show ?thesis by (simp add: name_key_def comp_def)
qed

lemma key_le_antisym:
  assumes "1 \<le> ch" "ch \<le> 6" "distinct_keys ch st" "a \<in> set st" "b \<in> set st"
    and "key_le ch a b" "key_le ch b a"
  shows "a = b"
proof -
  consider (r) "ch \<le> 2" | (n) "ch = 3 \<or> ch = 4" | (v) "ch = 5 \<or> ch = 6"
    using choice_cases[OF assms(1,2)] by auto
  then show ?thesis
  proof cases
    case r
    then have "roll a = roll b" using assms(1,6,7) by (auto simp: key_le_def split: if_splits)
    moreover have "inj_on roll (set st)" using assms(3) r by (simp add: distinct_keys_def distinct_map)
    ultimately show ?thesis using assms(4,5) by (simp add: inj_on_def)
  next
    case n
    then have "name_key a = name_key b" using assms(6,7) by (auto simp: key_le_def)
    then have "map c_tolower (cstr (name a)) = map c_tolower (cstr (name b))"
      by (simp add: name_key_eq)
    moreover have "inj_on (\<lambda>s. map c_tolower (cstr (name s))) (set st)"
      using assms(3) n by (auto simp: distinct_keys_def distinct_map)
    ultimately show ?thesis using assms(4,5) by (simp add: inj_on_def)
  next
    case v
    then have "average a = average b" using assms(6,7) by (auto simp: key_le_def)
    moreover have "inj_on average (set st)"
      using assms(3) v by (auto simp: distinct_keys_def distinct_map)
    ultimately show ?thesis using assms(4,5) by (simp add: inj_on_def)
  qed
qed

lemma sortMenu_students:
  "inputIntInRange 1 6 inp = Some (ch, inp') \<Longrightarrow>
     students (snd (sortMenu qsort w inp)) =
       (if students w = [] then [] else qsort (sortMenu_cmp ch) (students w))"
  by (simp add: sortMenu_def studentCount_def)

lemma qsort_sorted_by_key:
  assumes "qsort_contract qsort" "1 \<le> ch" "ch \<le> 6" "list_all roll_ok st"
  shows "mset (qsort (sortMenu_cmp ch) st) = mset st"
    and "sorted_wrt (key_le ch) (qsort (sortMenu_cmp ch) st)"
proof -
  have ok: "roll_ok a" if "a \<in> set st" for a
    using assms(4) that by (simp add: list_all_iff)
  note t = total_ordering_by_le[where cmp = "sortMenu_cmp ch" and le = "key_le ch" and A = "set st",
      OF sortMenu_cmp_key[OF assms(2,3)] key_le_trans]
  have to: "total_ordering (sortMenu_cmp ch) (set st)"
    using ok by (intro t(1)) auto
  have le: "cmp_le (sortMenu_cmp ch) a b = key_le ch a b" if "a \<in> set st" "b \<in> set st" for a b
    using ok that by (intro t(2)) auto
  from assms(1) to have c: "mset (qsort (sortMenu_cmp ch) st) = mset st"
    "sorted_wrt (cmp_le (sortMenu_cmp ch)) (qsort (sortMenu_cmp ch) st)"
    unfolding qsort_contract_def by blast+
  show "mset (qsort (sortMenu_cmp ch) st) = mset st" by (rule c)
  have "set (qsort (sortMenu_cmp ch) st) = set st" using c(1) by (metis set_mset_mset)
  then show "sorted_wrt (key_le ch) (qsort (sortMenu_cmp ch) st)"
    using c(2) le by (auto intro: sorted_wrt_mono_rel[rotated])
qed

text \<open>
  C7. Let \<^verbatim>\<open>qsort\<close> do what the C standard says, let the rolls be positive numbers of
  the type \<^verbatim>\<open>int\<close>, and let the keys of the chosen order be pairwise distinct (the
  rolls, or the names without regard to case, or the averages). Then sorting by one of
  the six choices and sorting the result by its counterpart gives the first result
  reversed; the first result holds the records of the store, in the order of the key.
  Each descending comparator returns the negation of what the ascending one returns, on
  every pair of records (for the rolls: on every pair whose subtraction does not
  overflow).
\<close>

theorem sort_then_counterpart_reverses:
  assumes "qsort_contract qsort"
    and "inputIntInRange 1 6 inp = Some (ch, inp')"
    and "inputIntInRange 1 6 inp2 = Some (counterpart ch, inp2')"
    and "list_all roll_ok (students w)"
    and "distinct_keys ch (students w)"
  shows "students (snd (sortMenu qsort (snd (sortMenu qsort w inp)) inp2)) =
           rev (students (snd (sortMenu qsort w inp))) \<and>
         mset (students (snd (sortMenu qsort w inp))) = mset (students w) \<and>
         sorted_wrt (key_le ch) (students (snd (sortMenu qsort w inp))) \<and>
         (\<forall>a b. roll_ok a \<and> roll_ok b \<longrightarrow>
            cmpRollDesc a b = map_option uminus (cmpRollAsc a b) \<and> cmpRollAsc a b \<noteq> None) \<and>
         (\<forall>a b. cmpNameDesc a b = map_option uminus (cmpNameAsc a b) \<and> cmpNameAsc a b \<noteq> None) \<and>
         (\<forall>a b. cmpAvgDesc a b = map_option uminus (cmpAvgAsc a b) \<and> cmpAvgAsc a b \<noteq> None)"
proof -
  define st where "st = students w"
  define ys where "ys = students (snd (sortMenu qsort w inp))"
  define zs where "zs = students (snd (sortMenu qsort (snd (sortMenu qsort w inp)) inp2))"
  have ch: "1 \<le> ch" "ch \<le> 6"
    using inputIntInRange_Some[OF assms(2)] by simp_all
  have ch': "1 \<le> counterpart ch" "counterpart ch \<le> 6"
    using counterpart_range[OF ch] by simp_all
  have ys: "ys = (if st = [] then [] else qsort (sortMenu_cmp ch) st)"
    unfolding ys_def st_def using assms(2) by (rule sortMenu_students)
  have zs: "zs = (if ys = [] then [] else qsort (sortMenu_cmp (counterpart ch)) ys)"
    unfolding zs_def ys_def using assms(3) by (rule sortMenu_students)
  have ok: "list_all roll_ok st" using assms(4) by (simp add: st_def)
  have m1: "mset ys = mset st" and s1: "sorted_wrt (key_le ch) ys"
    using qsort_sorted_by_key[OF assms(1) ch ok] by (simp_all add: ys)
  have sets: "set ys = set st" using m1 by (metis set_mset_mset)
  then have ok': "list_all roll_ok ys" using ok by (simp add: list_all_iff)
  have m2: "mset zs = mset ys" and s2: "sorted_wrt (key_le (counterpart ch)) zs"
    using qsort_sorted_by_key[OF assms(1) ch' ok'] by (simp_all add: zs)
  have "key_le (counterpart ch) = (\<lambda>a b. key_le ch b a)"
    by (intro ext) (rule key_le_counterpart[OF ch])
  then have "sorted_wrt (\<lambda>a b. key_le ch b a) zs"
    using s2 by simp
  then have s3: "sorted_wrt (key_le ch) (rev zs)"
    by (simp add: sorted_wrt_rev)
  have anti: "a = b" if "a \<in> set ys" "b \<in> set ys" "key_le ch a b" "key_le ch b a" for a b
    using key_le_antisym[OF ch assms(5)] that sets by (simp add: st_def)
  have m3: "mset ys = mset (rev zs)"
    using m2 by simp
  have "ys = rev zs"
    using anti s1 s3 m3 by (rule sorted_wrt_unique)
  then have "zs = rev ys" by simp
  moreover have "cmpRollDesc a b = map_option uminus (cmpRollAsc a b) \<and> cmpRollAsc a b \<noteq> None"
    if "roll_ok a \<and> roll_ok b" for a b
    using that by (simp add: cmpRoll_values)
  moreover have "cmpNameDesc a b = map_option uminus (cmpNameAsc a b) \<and> cmpNameAsc a b \<noteq> None" for a b
    by (simp add: cmpName_values)
  moreover have "cmpAvgDesc a b = map_option uminus (cmpAvgAsc a b) \<and> cmpAvgAsc a b \<noteq> None" for a b
    by (simp add: cmpAvg_values)
  ultimately show ?thesis
    using m1 s1 unfolding ys_def zs_def st_def by blast
qed

theorem sort_then_counterpart_reverses_witness:
  "qsort_contract insertion_sort \<and> list_all roll_ok (students run5) \<and> distinct_keys 3 (students run5) \<and>
   map name (students run5) = [''Ann'', ''Cy'', ''bea''] \<and>
   map name (students (snd (sortMenu insertion_sort run5 [3]))) = [''Ann'', ''bea'', ''Cy''] \<and>
   students (snd (sortMenu insertion_sort (snd (sortMenu insertion_sort run5 [3])) [4])) =
     rev (students (snd (sortMenu insertion_sort run5 [3])))"
proof -
  have i: "inputIntInRange 1 6 [3] = Some (3, [])" "inputIntInRange 1 6 [4] = Some (counterpart 3, [])"
    by (simp_all add: counterpart_def)
  have r: "list_all roll_ok (students run5)"
    by code_simp
  have d: "distinct_keys 3 (students run5)"
    by code_simp
  have n: "map name (students run5) = [''Ann'', ''Cy'', ''bea'']"
    "map name (students (snd (sortMenu insertion_sort run5 [3]))) = [''Ann'', ''bea'', ''Cy'']"
    by code_simp+
  from sort_then_counterpart_reverses[OF qsort_contract_insertion_sort i r d]
  show ?thesis using r d n by (simp add: qsort_contract_insertion_sort)
qed

section \<open>Statistics\<close>

lemma showStats_loop_stop: "\<not> i < length st \<Longrightarrow> showStats_loop st i a = a"
  by (simp add: showStats_loop.simps[of st i])

lemma showStats_loop_step:
  "i < length st \<Longrightarrow> showStats_loop st i a = showStats_loop st (i + 1) (showStats_step st i a)"
  by (simp add: showStats_loop.simps[of st i])

lemma showStats_step_fields:
  "classAvg (showStats_step st i a) = fadd (classAvg a) (average (st ! i))"
  "topIdx (showStats_step st i a) = (if average (st ! topIdx a) < average (st ! i) then i else topIdx a)"
  "lowIdx (showStats_step st i a) = (if average (st ! i) < average (st ! lowIdx a) then i else lowIdx a)"
  by (simp_all add: showStats_step_def Let_def)

lemma showStats_loop_classAvg:
  "i \<le> length st \<Longrightarrow> classAvg (showStats_loop st i a) = foldl fadd (classAvg a) (map average (drop i st))"
proof (induction st i a rule: showStats_loop.induct)
  case (1 st i a)
  show ?case
  proof (cases "i < length st")
    case True
    have "drop i st = st ! i # drop (Suc i) st" using True by (simp add: Cons_nth_drop_Suc)
    then show ?thesis
      using True "1.IH"[OF True] by (simp add: showStats_loop_step showStats_step_fields)
  next
    case False
    then show ?thesis using "1.prems" by (simp add: showStats_loop_stop)
  qed
qed

lemma showStats_loop_topIdx:
  assumes "i \<le> length st" "0 < length st"
    and "(i = 0 \<and> topIdx a = 0) \<or>
         (topIdx a < i \<and> (\<forall>j<i. average (st ! j) \<le> average (st ! topIdx a)) \<and>
          (\<forall>j<topIdx a. average (st ! j) < average (st ! topIdx a)))"
  shows "topIdx (showStats_loop st i a) < length st \<and>
     (\<forall>j<length st. average (st ! j) \<le> average (st ! topIdx (showStats_loop st i a))) \<and>
     (\<forall>j<topIdx (showStats_loop st i a). average (st ! j) < average (st ! topIdx (showStats_loop st i a)))"
  using assms
proof (induction st i a rule: showStats_loop.induct)
  case (1 st i a)
  show ?case
  proof (cases "i < length st")
    case False
    then have "i = length st" using "1.prems"(1) by simp
    then show ?thesis using "1.prems"(2,3) False by (simp add: showStats_loop_stop)
  next
    case True
    define t where "t = topIdx a"
    define t' where "t' = topIdx (showStats_step st i a)"
    have t': "t' = (if average (st ! t) < average (st ! i) then i else t)"
      by (simp add: t'_def t_def showStats_step_fields)
    have inv: "t' < i + 1 \<and> (\<forall>j<i + 1. average (st ! j) \<le> average (st ! t')) \<and>
          (\<forall>j<t'. average (st ! j) < average (st ! t'))"
    proof (cases "i = 0")
      case True
      then have "t = 0" using "1.prems"(3) by (auto simp: t_def)
      with True show ?thesis by (simp add: t')
    next
      case False
      then have h: "t < i" "\<forall>j<i. average (st ! j) \<le> average (st ! t)"
        "\<forall>j<t. average (st ! j) < average (st ! t)"
        using "1.prems"(3) by (auto simp: t_def)
      show ?thesis
      proof (cases "average (st ! t) < average (st ! i)")
        case True
        then have "\<forall>j<i. average (st ! j) < average (st ! i)" using h(2) by fastforce
        then show ?thesis using True by (auto simp: t' less_Suc_eq order_less_imp_le)
      next
        case False
        then show ?thesis using h by (auto simp: t' less_Suc_eq)
      qed
    qed
    have "topIdx (showStats_loop st (i + 1) (showStats_step st i a)) < length st \<and>
     (\<forall>j<length st. average (st ! j) \<le> average (st ! topIdx (showStats_loop st (i + 1) (showStats_step st i a)))) \<and>
     (\<forall>j<topIdx (showStats_loop st (i + 1) (showStats_step st i a)).
        average (st ! j) < average (st ! topIdx (showStats_loop st (i + 1) (showStats_step st i a))))"
      using True "1.prems"(2) inv by (intro "1.IH") (auto simp: t'_def)
    then show ?thesis using True by (simp add: showStats_loop_step)
  qed
qed


lemma showStats_loop_lowIdx:
  assumes "i \<le> length st" "0 < length st"
    and "(i = 0 \<and> lowIdx a = 0) \<or>
         (lowIdx a < i \<and> (\<forall>j<i. average (st ! lowIdx a) \<le> average (st ! j)) \<and>
          (\<forall>j<lowIdx a. average (st ! lowIdx a) < average (st ! j)))"
  shows "lowIdx (showStats_loop st i a) < length st \<and>
     (\<forall>j<length st. average (st ! lowIdx (showStats_loop st i a)) \<le> average (st ! j)) \<and>
     (\<forall>j<lowIdx (showStats_loop st i a). average (st ! lowIdx (showStats_loop st i a)) < average (st ! j))"
  using assms
proof (induction st i a rule: showStats_loop.induct)
  case (1 st i a)
  show ?case
  proof (cases "i < length st")
    case False
    then have "i = length st" using "1.prems"(1) by simp
    then show ?thesis using "1.prems"(2,3) False by (simp add: showStats_loop_stop)
  next
    case True
    define t where "t = lowIdx a"
    define t' where "t' = lowIdx (showStats_step st i a)"
    have t': "t' = (if average (st ! i) < average (st ! t) then i else t)"
      by (simp add: t'_def t_def showStats_step_fields)
    have inv: "t' < i + 1 \<and> (\<forall>j<i + 1. average (st ! t') \<le> average (st ! j)) \<and>
          (\<forall>j<t'. average (st ! t') < average (st ! j))"
    proof (cases "i = 0")
      case True
      then have "t = 0" using "1.prems"(3) by (auto simp: t_def)
      with True show ?thesis by (simp add: t')
    next
      case False
      then have h: "t < i" "\<forall>j<i. average (st ! t) \<le> average (st ! j)"
        "\<forall>j<t. average (st ! t) < average (st ! j)"
        using "1.prems"(3) by (auto simp: t_def)
      show ?thesis
      proof (cases "average (st ! i) < average (st ! t)")
        case True
        then have "\<forall>j<i. average (st ! i) < average (st ! j)" using h(2) by fastforce
        then show ?thesis using True by (auto simp: t' less_Suc_eq order_less_imp_le)
      next
        case False
        then show ?thesis using h by (auto simp: t' less_Suc_eq)
      qed
    qed
    have "lowIdx (showStats_loop st (i + 1) (showStats_step st i a)) < length st \<and>
     (\<forall>j<length st. average (st ! lowIdx (showStats_loop st (i + 1) (showStats_step st i a))) \<le> average (st ! j)) \<and>
     (\<forall>j<lowIdx (showStats_loop st (i + 1) (showStats_step st i a)).
        average (st ! lowIdx (showStats_loop st (i + 1) (showStats_step st i a))) < average (st ! j))"
      using True "1.prems"(2) inv by (intro "1.IH") (auto simp: t'_def)
    then show ?thesis using True by (simp add: showStats_loop_step)
  qed
qed


lemma fl32_nonneg: "0 \<le> x \<Longrightarrow> x < 2 ^ 17 \<Longrightarrow> 0 \<le> fl32 x"
proof (cases "x = 0")
  case True
  then show ?thesis by (simp add: fl32_def)
next
  case False
  assume "0 \<le> x" "x < 2 ^ 17"
  with False have "of_int 0 \<le> fl32 x"
    by (intro fl32_ge_int[where k = 17]) auto
  then show ?thesis by simp
qed

lemma fl32_err_17: "0 \<le> x \<Longrightarrow> x < 2 ^ 17 \<Longrightarrow> \<bar>fl32 x - x\<bar> \<le> 1 / 256"
proof (cases "x = 0")
  case True
  then show ?thesis by (simp add: fl32_def)
next
  case False
  assume "0 \<le> x" "x < 2 ^ 17"
  with False show ?thesis using fl32_err[of x 17] by simp
qed

lemma float_sum_error:
  "list_all (\<lambda>x. 0 \<le> x \<and> x \<le> 100) xs \<Longrightarrow> 0 \<le> s \<Longrightarrow>
   s + 101 * of_nat (length xs) < 2 ^ 17 \<Longrightarrow>
     0 \<le> foldl fadd s xs \<and> \<bar>foldl fadd s xs - (s + sum_list xs)\<bar> \<le> of_nat (length xs) / 256"
proof (induction xs arbitrary: s)
  case Nil
  then show ?case by simp
next
  case (Cons x xs)
  define s' where "s' = fadd s x"
  have x: "0 \<le> x" "x \<le> 100" and all: "list_all (\<lambda>x. 0 \<le> x \<and> x \<le> 100) xs"
    using Cons.prems(1) by simp_all
  have n: "(0 :: rat) \<le> of_nat (length xs)" by simp
  have b: "s + 101 * of_nat (length xs) + 101 < 2 ^ 17"
    using Cons.prems(3) by (simp add: algebra_simps)
  have y: "0 \<le> s + x" "s + x < 2 ^ 17"
    using Cons.prems(2) x b n by linarith+
  have e: "\<bar>s' - (s + x)\<bar> \<le> 1 / 256"
    unfolding s'_def fadd_def using y by (rule fl32_err_17)
  have p: "0 \<le> s'"
    unfolding s'_def fadd_def using y by (rule fl32_nonneg)
  have "s' \<le> s + x + 1 / 256" using e by linarith
  then have "s' + 101 * of_nat (length xs) < 2 ^ 17"
    using b x by linarith
  from Cons.IH[OF all p this]
  have ih: "0 \<le> foldl fadd s' xs" "\<bar>foldl fadd s' xs - (s' + sum_list xs)\<bar> \<le> of_nat (length xs) / 256"
    by simp_all
  have "\<bar>foldl fadd s' xs - (s + x + sum_list xs)\<bar> \<le> of_nat (length xs) / 256 + 1 / 256"
    using ih(2) e by linarith
  then show ?case using ih(1) by (simp add: s'_def add_divide_distrib algebra_simps)
qed

lemma float_mean_error:
  assumes "list_all (\<lambda>x. 0 \<le> x \<and> x \<le> 100) xs" "xs \<noteq> []" "length xs \<le> 1000"
  shows "\<bar>float_mean xs - exact_mean xs\<bar> \<le> 1 / 2 ^ 8 + 1 / 2 ^ 18"
proof -
  define n :: rat where "n = of_nat (length xs)"
  define S where "S = foldl fadd 0 xs"
  have n1: "1 \<le> n" using assms(2) by (cases xs) (simp_all add: n_def)
  have "n \<le> 1000" using assms(3) by (simp add: n_def)
  then have "0 + 101 * n < 2 ^ 17" by simp
  from float_sum_error[OF assms(1) _ this[unfolded n_def]]
  have S: "0 \<le> S" "\<bar>S - sum_list xs\<bar> \<le> n / 256"
    by (simp_all add: S_def n_def)
  have sum: "sum_list xs \<le> 100 * n"
    using assms(1) unfolding n_def by (induction xs) (auto simp: algebra_simps)
  have fn: "float_of_int (int (length xs)) = n"
    unfolding float_of_int_def n_def using assms(3) fl32_of_int[of "int (length xs)"] by simp
  have fm: "float_mean xs = fl32 (S / n)"
    by (simp add: float_mean_def fdiv_def fn S_def)
  have q1: "\<bar>S / n - exact_mean xs\<bar> \<le> 1 / 256"
  proof -
    have "S / n - exact_mean xs = (S - sum_list xs) / n"
      by (simp add: exact_mean_def n_def diff_divide_distrib)
    then have "\<bar>S / n - exact_mean xs\<bar> = \<bar>S - sum_list xs\<bar> / n"
      using n1 by (simp add: abs_divide)
    also have "\<dots> \<le> (n / 256) / n"
      using S(2) n1 by (intro divide_right_mono) auto
    also have "\<dots> = 1 / 256" using n1 by simp
    finally show ?thesis .
  qed
  have "S \<le> 100 * n + n / 256" using S(2) sum by linarith
  then have "S < 128 * n" using n1 by linarith
  then have "S / n < 128" using n1 by (simp add: pos_divide_less_eq)
  then have q2: "S / n < 2 ^ 7" by simp
  have q0: "0 \<le> S / n" using S(1) n1 by simp
  define q where "q = S / n"
  have "\<bar>fl32 q - q\<bar> \<le> 1 / 2 ^ 18"
  proof (cases "q = 0")
    case True
    have "fl32 0 = 0" by (simp add: fl32_def)
    then show ?thesis unfolding True by simp
  next
    case False
    have "0 \<le> q" "q < 2 ^ 7" using q0 q2 unfolding q_def by blast+
    with False have "0 < q" "q < 2 ^ 7" by linarith+
    then show ?thesis using fl32_err[of q 7] by simp
  qed
  moreover have "(1 :: rat) / 256 = 1 / 2 ^ 8" by simp
  ultimately show ?thesis using q1 unfolding fm q_def[symmetric] by linarith
qed

text \<open>
  C4. The class average is not the mean of the averages. \<^verbatim>\<open>showStats\<close> adds the
  averages into the \<^verbatim>\<open>float\<close> \<^verbatim>\<open>classSum\<close> and divides by the count, and each of
  these operations rounds. After three adds the store holds the averages 21 / 8, 11 / 2
  and 11744051 / 2097152; their mean is 28783411 / 6291456, printed by \<^verbatim>\<open>%.2f\<close> as
  4.57, and so is the \<^verbatim>\<open>float\<close> nearest to it; the class average of the program is
  9594471 / 2097152, which it prints as 4.58.
\<close>

theorem showStats_classAvg_not_mean:
  "addStudent empty_world ''Dee'' [8, 3, 3, 3, 3, 3, 2, 2, 2] = (Done, drift1) \<and>
   addStudent drift1 ''Eli'' [4, 6, 6, 5, 5] = (Done, drift2) \<and>
   addStudent drift2 ''Fay'' [5, 6, 6, 6, 5, 5] = (Done, drift_world) \<and>
   map average (students drift_world) = [21 / 8, 11 / 2, 11744051 / 2097152] \<and>
   exact_mean (map average (students drift_world)) = 28783411 / 6291456 \<and>
   fl32 (exact_mean (map average (students drift_world))) = 4797235 / 1048576 \<and>
   map_option classAvg (showStats drift_world) = Some (9594471 / 2097152) \<and>
   map_option classAvg (showStats drift_world) \<noteq>
     Some (exact_mean (map average (students drift_world))) \<and>
   map_option classAvg (showStats drift_world) \<noteq>
     Some (fl32 (exact_mean (map average (students drift_world)))) \<and>
   show_2f (9594471 / 2097152) = ''4.58'' \<and>
   show_2f (28783411 / 6291456) = ''4.57'' \<and>
   show_2f (4797235 / 1048576) = ''4.57''"
proof -
  have a: "addStudent empty_world ''Dee'' [8, 3, 3, 3, 3, 3, 2, 2, 2] = (Done, drift1)"
    "addStudent drift1 ''Eli'' [4, 6, 6, 5, 5] = (Done, drift2)"
    "addStudent drift2 ''Fay'' [5, 6, 6, 6, 5, 5] = (Done, drift_world)"
    by code_simp+
  have v: "map average (students drift_world) = [21 / 8, 11 / 2, 11744051 / 2097152]"
    by code_simp
  have m: "exact_mean (map average (students drift_world)) = 28783411 / 6291456"
    by code_simp
  have f: "fl32 (exact_mean (map average (students drift_world))) = 4797235 / 1048576"
    by code_simp
  have c: "map_option classAvg (showStats drift_world) = Some (9594471 / 2097152)"
    by code_simp
  have n1: "map_option classAvg (showStats drift_world) \<noteq>
      Some (exact_mean (map average (students drift_world)))"
    unfolding c m by simp
  have n2: "map_option classAvg (showStats drift_world) \<noteq>
      Some (fl32 (exact_mean (map average (students drift_world))))"
    unfolding c f by simp
  have p: "show_2f (9594471 / 2097152) = ''4.58''" "show_2f (28783411 / 6291456) = ''4.57''"
    "show_2f (4797235 / 1048576) = ''4.57''"
    by code_simp+
  from a v m f c n1 n2 p show ?thesis by blast
qed

text \<open>
  C4, as the code has it. On a store that is not empty \<^verbatim>\<open>showStats\<close> gives a result.
  The class average is the mean of the averages of the records as single precision
  computes it (the sum from the first record to the last, divided by the count, each
  operation rounded); for at most 1000 averages between 0 and 100 it is less than 0.004
  away from the exact mean. The topper is the first record, in the order of the store,
  whose average is the maximum: every earlier record has a smaller average. The lowest
  is the first record whose average is the minimum.
\<close>

theorem showStats_mean_topper_lowest:
  "students w \<noteq> [] \<Longrightarrow>
     (\<exists>stt. showStats w = Some stt \<and>
        classAvg stt = float_mean (map average (students w)) \<and>
        topIdx stt < length (students w) \<and>
        average (students w ! topIdx stt) = Max (average ` set (students w)) \<and>
        (\<forall>j<topIdx stt. average (students w ! j) < average (students w ! topIdx stt)) \<and>
        lowIdx stt < length (students w) \<and>
        average (students w ! lowIdx stt) = Min (average ` set (students w)) \<and>
        (\<forall>j<lowIdx stt. average (students w ! lowIdx stt) < average (students w ! j)) \<and>
        (list_all (\<lambda>s. 0 \<le> average s \<and> average s \<le> 100) (students w) \<and>
         length (students w) \<le> 1000 \<longrightarrow>
           \<bar>classAvg stt - exact_mean (map average (students w))\<bar> \<le> 1 / 2 ^ 8 + 1 / 2 ^ 18))"
proof -
  assume ne: "students w \<noteq> []"
  define st where "st = students w"
  define a0 where "a0 = \<lparr>classAvg = 0, topIdx = 0, lowIdx = 0,
                    gradeA = 0, gradeB = 0, gradeC = 0, gradeD = 0, gradeF = 0\<rparr>"
  define a where "a = showStats_loop st 0 a0"
  define stt where "stt = a\<lparr>classAvg := fdiv (classAvg a) (float_of_int (studentCount w))\<rparr>"
  have len: "0 < length st" using ne by (simp add: st_def)
  have res: "showStats w = Some stt"
    using ne by (simp add: showStats_def studentCount_def Let_def stt_def a_def a0_def st_def)
  have "classAvg a = foldl fadd 0 (map average st)"
    using showStats_loop_classAvg[of 0 st a0] by (simp add: a_def a0_def)
  then have avg: "classAvg stt = float_mean (map average st)"
    by (simp add: stt_def float_mean_def studentCount_def st_def)
  have top: "topIdx a < length st" "\<forall>j<length st. average (st ! j) \<le> average (st ! topIdx a)"
    "\<forall>j<topIdx a. average (st ! j) < average (st ! topIdx a)"
    using showStats_loop_topIdx[of 0 st a0] len by (simp_all add: a_def a0_def)
  have low: "lowIdx a < length st" "\<forall>j<length st. average (st ! lowIdx a) \<le> average (st ! j)"
    "\<forall>j<lowIdx a. average (st ! lowIdx a) < average (st ! j)"
    using showStats_loop_lowIdx[of 0 st a0] len by (simp_all add: a_def a0_def)
  have mx: "average (st ! topIdx a) = Max (average ` set st)"
  proof (rule Max_eqI[symmetric])
    show "finite (average ` set st)" by simp
    show "average (st ! topIdx a) \<in> average ` set st" using top(1) by simp
    show "y \<le> average (st ! topIdx a)" if "y \<in> average ` set st" for y
      using that top(2) by (auto simp: in_set_conv_nth)
  qed
  have mn: "average (st ! lowIdx a) = Min (average ` set st)"
  proof (rule Min_eqI[symmetric])
    show "finite (average ` set st)" by simp
    show "average (st ! lowIdx a) \<in> average ` set st" using low(1) by simp
    show "average (st ! lowIdx a) \<le> y" if "y \<in> average ` set st" for y
      using that low(2) by (auto simp: in_set_conv_nth)
  qed
  have err: "\<bar>classAvg stt - exact_mean (map average st)\<bar> \<le> 1 / 2 ^ 8 + 1 / 2 ^ 18"
    if "list_all (\<lambda>s. 0 \<le> average s \<and> average s \<le> 100) st" "length st \<le> 1000"
  proof -
    have "list_all (\<lambda>x. 0 \<le> x \<and> x \<le> 100) (map average st)"
      using that(1) by (simp add: list_all_iff)
    then show ?thesis
      unfolding avg using len that(2) by (intro float_mean_error) auto
  qed
  have "topIdx stt = topIdx a" "lowIdx stt = lowIdx a" by (simp_all add: stt_def)
  then show ?thesis
    using res avg top low mx mn err unfolding st_def by auto
qed

theorem showStats_mean_topper_lowest_witness:
  "map average (students tie_world) = [50, 90, 50, 90] \<and>
   showStats tie_world =
     Some \<lparr>classAvg = 70, topIdx = 1, lowIdx = 0,
           gradeA = 2, gradeB = 0, gradeC = 0, gradeD = 2, gradeF = 0\<rparr> \<and>
   float_mean (map average (students tie_world)) = 70 \<and>
   Max (average ` set (students tie_world)) = 90 \<and> Min (average ` set (students tie_world)) = 50"
proof -
  have v: "map average (students tie_world) = [50, 90, 50, 90]"
    by code_simp
  then have ne: "students tie_world \<noteq> []"
    by auto
  have e: "showStats tie_world =
     Some \<lparr>classAvg = 70, topIdx = 1, lowIdx = 0,
           gradeA = 2, gradeB = 0, gradeC = 0, gradeD = 2, gradeF = 0\<rparr>"
    by code_simp
  have n: "average (students tie_world ! Suc 0) = 90" "average (students tie_world ! 0) = 50"
    by (simp_all add: tie_world_def asha_def)
  from showStats_mean_topper_lowest[OF ne]
  obtain stt where s: "showStats tie_world = Some stt"
    "classAvg stt = float_mean (map average (students tie_world))"
    "average (students tie_world ! topIdx stt) = Max (average ` set (students tie_world))"
    "average (students tie_world ! lowIdx stt) = Min (average ` set (students tie_world))"
    by blast
  have stt: "stt = \<lparr>classAvg = 70, topIdx = 1, lowIdx = 0,
           gradeA = 2, gradeB = 0, gradeC = 0, gradeD = 2, gradeF = 0\<rparr>"
    using s(1) e by simp
  have "float_mean (map average (students tie_world)) = 70"
    using s(2) by (simp add: stt)
  moreover have "Max (average ` set (students tie_world)) = 90"
    using s(3) by (simp add: stt n)
  moreover have "Min (average ` set (students tie_world)) = 50"
    using s(4) by (simp add: stt n)
  ultimately show ?thesis using v e by simp
qed

section \<open>Every run keeps the rolls distinct\<close>

lemma deleteStudent_shift_eq:
  "i < length st \<Longrightarrow> deleteStudent_shift st i = take i st @ drop (Suc i) st @ [last st]"
proof (induction st i rule: deleteStudent_shift.induct)
  case (1 st i)
  show ?case
  proof (cases "int i < int (length st) - 1")
    case True
    then have i: "Suc i < length st" by simp
    have "deleteStudent_shift st i = deleteStudent_shift (st[i := st ! (i + 1)]) (i + 1)"
      using True by (simp add: deleteStudent_shift.simps[of st i])
    also have "\<dots> = take (i + 1) (st[i := st ! (i + 1)]) @ drop (Suc (i + 1)) (st[i := st ! (i + 1)]) @
        [last (st[i := st ! (i + 1)])]"
      using "1.IH"[OF True] i by simp
    also have "take (i + 1) (st[i := st ! (i + 1)]) = take i st @ [st ! Suc i]"
      using i by (simp add: take_Suc_conv_app_nth)
    also have "drop (Suc (i + 1)) (st[i := st ! (i + 1)]) = drop (Suc (Suc i)) st"
      by simp
    also have "last (st[i := st ! (i + 1)]) = last st"
    proof -
      have "st \<noteq> []" "i \<noteq> length st - 1" using i by auto
      then show ?thesis by (simp add: last_list_update)
    qed
    also have "(take i st @ [st ! Suc i]) @ drop (Suc (Suc i)) st @ [last st] =
        take i st @ drop (Suc i) st @ [last st]"
      using i by (simp add: Cons_nth_drop_Suc)
    finally show ?thesis .
  next
    case False
    then have i: "i = length st - 1" "st \<noteq> []" using "1.prems" by auto
    then have "take i st = butlast st" by (simp add: butlast_conv_take)
    then have "take i st @ drop (Suc i) st @ [last st] = st"
      using i by simp
    then show ?thesis using False by (simp add: deleteStudent_shift.simps[of st i])
  qed
qed

lemma deleteStudent_students:
  assumes "deleteStudent w inp c = (st, w')"
  shows "students w' = students w \<or>
     (\<exists>i<length (students w). students w' = take i (students w) @ drop (Suc i) (students w))"
proof (cases "st = Done")
  case False
  then have "w' = w"
    using assms by (auto simp: deleteStudent_def Let_def split: if_splits option.splits prod.splits)
  then show ?thesis by simp
next
  case True
  then have "\<exists>r. 0 \<le> findIndexByRoll w r \<and>
      students w' = butlast (deleteStudent_shift (students w) (nat (findIndexByRoll w r)))"
    using assms
    by (auto simp: deleteStudent_def Let_def not_less split: if_splits option.splits prod.splits)
  then obtain r where r: "0 \<le> findIndexByRoll w r"
    and w': "students w' = butlast (deleteStudent_shift (students w) (nat (findIndexByRoll w r)))"
    by blast
  have i: "nat (findIndexByRoll w r) < length (students w)"
    using r by (rule findIndexByRoll_hit)
  have "students w' = take (nat (findIndexByRoll w r)) (students w) @ drop (Suc (nat (findIndexByRoll w r))) (students w)"
    unfolding w' deleteStudent_shift_eq[OF i] by (simp add: butlast_append)
  with i show ?thesis by blast
qed

lemma updateStudent_rolls:
  assumes "updateStudent w inp line = (st, w')"
  shows "map roll (students w') = map roll (students w)"
proof -
  have upd: "map roll (xs[i := y]) = map roll xs" if "roll y = roll (xs ! i)" for xs i and y :: student
  proof (cases "i < length xs")
    case True
    then have "(map roll xs)[i := roll (xs ! i)] = map roll xs"
      by (metis list_update_id nth_map)
    then show ?thesis using that by (simp add: map_update)
  next
    case False
    then have "xs[i := y] = xs" by (intro list_update_beyond) simp
    then show ?thesis by simp
  qed
  show ?thesis
    using assms
    by (auto simp: updateStudent_def Let_def upd split: if_splits option.splits prod.splits)
qed

lemma addStudent_students:
  assumes "addStudent w line inp = (st, w')"
  shows "students w' = students w \<or>
     (\<exists>s. students w' = students w @ [s] \<and> roll s = findMaxRoll w + 1 \<and> roll s \<le> INT_MAX)"
proof (cases "st = Done")
  case False
  then have "w' = w"
    using assms by (auto simp: addStudent_def Let_def split: if_splits option.splits prod.splits)
  then show ?thesis by simp
next
  case True
  from addStudent_Done[OF assms[unfolded True]] show ?thesis by auto
qed

lemma sortMenu_students_cases:
  assumes "sortMenu qsort w inp = (st, w')"
  shows "students w' = students w \<or>
     (\<exists>ch. 1 \<le> ch \<and> ch \<le> 6 \<and> students w' = qsort (sortMenu_cmp ch) (students w))"
  using assms
  by (auto simp: sortMenu_def Let_def split: if_splits option.splits prod.splits
      dest: inputIntInRange_Some)

lemma store_inv_step:
  assumes "qsort_contract qsort"
  shows "reachable qsort atof w \<Longrightarrow> store_inv w"
proof (induction rule: reachable.induct)
  case (at_start w)
  then show ?case by (simp add: store_inv_def)
next
  case (file_change w d b)
  then show ?case by (simp add: store_inv_def)
next
  case (after_load w)
  then show ?case by (auto simp: store_inv_def loadAll_students split: option.splits)
next
  case (after_add w line inp st w')
  from addStudent_students[OF after_add.hyps(2)] show ?case
  proof
    assume "students w' = students w"
    with after_add.IH show ?thesis by (simp add: store_inv_def)
  next
    assume "\<exists>s. students w' = students w @ [s] \<and> roll s = findMaxRoll w + 1 \<and> roll s \<le> INT_MAX"
    then obtain s where s: "students w' = students w @ [s]" "roll s = findMaxRoll w + 1" "roll s \<le> INT_MAX"
      by blast
    have m: "findMaxRoll w = Max (insert 0 (roll ` set (students w)))" by (rule findMaxRoll_Max)
    have "x \<le> findMaxRoll w" if "x \<in> roll ` set (students w)" for x
      unfolding m using that by (intro Max_ge) auto
    then have "roll s \<notin> roll ` set (students w)" using s(2) by fastforce
    moreover have "0 \<le> findMaxRoll w" unfolding m by (intro Max_ge) auto
    ultimately show ?thesis
      using after_add.IH s by (auto simp: store_inv_def roll_ok_def)
  qed
next
  case (after_update w inp line st w')
  have "map roll (students w') = map roll (students w)"
    using after_update.hyps(2) by (rule updateStudent_rolls)
  moreover have "list_all roll_ok xs = list_all (\<lambda>r. 1 \<le> r \<and> r \<le> INT_MAX) (map roll xs)" for xs
    by (simp add: list_all_iff roll_ok_def)
  ultimately have "list_all roll_ok (students w') = list_all roll_ok (students w)"
    by simp
  moreover note \<open>map roll (students w') = map roll (students w)\<close>
  ultimately show ?case using after_update.IH by (simp add: store_inv_def)
next
  case (after_delete w inp c st w')
  from deleteStudent_students[OF after_delete.hyps(2)] show ?case
  proof
    assume "students w' = students w"
    with after_delete.IH show ?thesis by (simp add: store_inv_def)
  next
    assume "\<exists>i<length (students w). students w' = take i (students w) @ drop (Suc i) (students w)"
    then obtain i where i: "i < length (students w)"
      "students w' = take i (students w) @ drop (Suc i) (students w)" by blast
    have "students w = take i (students w) @ students w ! i # drop (Suc i) (students w)"
      using i(1) by (simp add: id_take_nth_drop[symmetric])
    then obtain x where x: "students w = take i (students w) @ x # drop (Suc i) (students w)" by blast
    have "distinct (map roll (take i (students w) @ x # drop (Suc i) (students w)))"
      and "list_all roll_ok (take i (students w) @ x # drop (Suc i) (students w))"
      using after_delete.IH unfolding store_inv_def x[symmetric] by simp_all
    then show ?thesis unfolding store_inv_def i(2) by auto
  qed
next
  case (after_sort w inp st w')
  from sortMenu_students_cases[OF after_sort.hyps(2)] show ?case
  proof
    assume "students w' = students w"
    with after_sort.IH show ?thesis by (simp add: store_inv_def)
  next
    assume "\<exists>ch. 1 \<le> ch \<and> ch \<le> 6 \<and> students w' = qsort (sortMenu_cmp ch) (students w)"
    then obtain ch where ch: "1 \<le> ch" "ch \<le> 6" "students w' = qsort (sortMenu_cmp ch) (students w)"
      by blast
    have ok: "list_all roll_ok (students w)" using after_sort.IH by (simp add: store_inv_def)
    have m: "mset (students w') = mset (students w)"
      unfolding ch(3) using assms ch(1,2) ok by (rule qsort_sorted_by_key(1))
    then have "mset (map roll (students w')) = mset (map roll (students w))" by simp
    then have "distinct (map roll (students w')) = distinct (map roll (students w))"
      by (rule mset_eq_imp_distinct_iff)
    moreover have "set (students w') = set (students w)" using m by (metis set_mset_mset)
    then have "list_all roll_ok (students w') = list_all roll_ok (students w)"
      by (simp add: list_all_iff)
    ultimately show ?thesis using after_sort.IH by (simp add: store_inv_def)
  qed
qed

text \<open>
  C9. In every world that a run of the program reaches, by loading the file (whatever
  it holds), adding, updating, deleting and sorting, the rolls of the records are
  pairwise distinct (and positive numbers of the type \<^verbatim>\<open>int\<close>). A load cannot bring
  two equal rolls into the store, since it stores no record (\<open>loadAll_line_None\<close>).
\<close>

theorem reachable_rolls_distinct:
  "qsort_contract qsort \<Longrightarrow> reachable qsort atof w \<Longrightarrow>
     distinct (map roll (students w)) \<and> list_all roll_ok (students w)"
proof -
  assume "qsort_contract qsort" and "reachable qsort atof w"
  then have "store_inv w" by (rule store_inv_step)
  then show ?thesis by (simp add: store_inv_def)
qed

theorem reachable_rolls_distinct_witness:
  "qsort_contract insertion_sort \<and> reachable insertion_sort (\<lambda>t. 0) run6 \<and>
   map roll (students run6) = [3, 2, 1] \<and> distinct (map roll (students run6))"
proof -
  have d: "returns Done" by (simp add: returns_def)
  have "reachable insertion_sort (\<lambda>t. 0) empty_world"
    by (rule reachable.at_start) (simp add: empty_world_def)
  then have "reachable insertion_sort (\<lambda>t. 0) (loadAll (\<lambda>t. 0) empty_world)"
    by (rule reachable.after_load)
  moreover have "loadAll (\<lambda>t. 0) empty_world = empty_world"
    by (simp add: loadAll_def empty_world_def)
  ultimately have "reachable insertion_sort (\<lambda>t. 0) empty_world"
    by simp
  then have "reachable insertion_sort (\<lambda>t. 0) run1"
    using run_values(1) d by (rule reachable.after_add)
  then have "reachable insertion_sort (\<lambda>t. 0) run2"
    using run_values(2) d by (rule reachable.after_add)
  then have "reachable insertion_sort (\<lambda>t. 0) run3"
    using run_values(3) d by (rule reachable.after_delete)
  then have "reachable insertion_sort (\<lambda>t. 0) run4"
    using run_values(4) d by (rule reachable.after_add)
  moreover have "addStudent run4 ''bea'' [3, 90, 95, 100] = (Done, run5)"
    by code_simp
  ultimately have "reachable insertion_sort (\<lambda>t. 0) run5"
    using d by (rule reachable.after_add)
  moreover have "sortMenu insertion_sort run5 [2] = (Done, run6)"
    by code_simp
  ultimately have r: "reachable insertion_sort (\<lambda>t. 0) run6"
    using d by (rule reachable.after_sort)
  have m: "map roll (students run6) = [3, 2, 1]"
    by code_simp
  from reachable_rolls_distinct[OF qsort_contract_insertion_sort r]
  show ?thesis using r m by (simp add: qsort_contract_insertion_sort)
qed

end
